theory Spec2Isabelle
  imports Main "HOL-Library.Word" "HOL-Library.AList" "HOL-Library.Multiset"
begin

unbundle bit_operations_syntax

section \<open>Byte slices and the conversion helpers\<close>

text \<open>
  A Go \<^verbatim>\<open>[]byte\<close> is a list of 8-bit words; \<^verbatim>\<open>[]byte(text)\<close> turns a Go string
  (here a HOL \<open>string\<close>, whose characters are bytes) into its bytes.
\<close>

type_synonym bytes = "8 word list"

definition toBytes :: "string \<Rightarrow> bytes" where
  "toBytes text = map of_char text"

text \<open>
  A Go panic ends the program; it is a value of the model. Reading eight bytes from a
  shorter slice panics with an index out of range, calling a method on a nil bucket
  dereferences a nil pointer.
\<close>

datatype panic = IndexOutOfRange | NilPointerDereference

text \<open>
  Modelled from the spec: the helpers \<^verbatim>\<open>uint64ToByte\<close>, \<^verbatim>\<open>byteToUint64\<close>,
  \<^verbatim>\<open>intToByte\<close> and \<^verbatim>\<open>byteToInt\<close> are called by the indexer but declared in a file
  that is not at hand. The spec fixes identifiers as 64-bit values and sorts them for
  sequential writes, so they are the eight-byte big-endian codec of
  \<^verbatim>\<open>encoding/binary\<close>: \<^verbatim>\<open>PutUint64\<close> writes eight bytes, most significant first,
  and \<^verbatim>\<open>Uint64\<close> reads the first eight bytes and panics on a shorter slice. A Go
  \<^verbatim>\<open>int\<close> is a 64-bit two's complement value, and the conversions between
  \<^verbatim>\<open>int\<close> and \<^verbatim>\<open>uint64\<close> keep its bits, so an \<^verbatim>\<open>int\<close> is a \<open>64 word\<close> too.
\<close>

definition uint64ToByte :: "64 word \<Rightarrow> bytes" where
  "uint64ToByte i = map (\<lambda>k. ucast (drop_bit (8 * k) i)) [7, 6, 5, 4, 3, 2, 1, 0 :: nat]"

definition byteToUint64 :: "bytes \<Rightarrow> panic + 64 word" where
  "byteToUint64 b =
     (if length b < 8 then Inl IndexOutOfRange
      else Inr (foldl (\<lambda>acc x. push_bit 8 acc OR ucast x) 0 (take 8 b)))"

definition intToByte :: "64 word \<Rightarrow> bytes" where
  "intToByte i = uint64ToByte i"

definition byteToInt :: "bytes \<Rightarrow> panic + 64 word" where
  "byteToInt b = byteToUint64 b"

section \<open>The store: buckets of the bolt library\<close>

text \<open>
  The indexer keeps everything in a bolt database. Bolt is a library the repository
  imports; what the indexer uses of it is modelled after the library's documented
  behaviour (\<^verbatim>\<open>bucket.go\<close>):
  \<^item> a bucket holds, under each key, either a value or a nested bucket, never both,
    and a sequence counter;
  \<^item> \<^verbatim>\<open>Get\<close> "returns a nil value if the key does not exist or if the key is a
    nested bucket";
  \<^item> \<^verbatim>\<open>Put\<close> overwrites an existing value; it returns \<^verbatim>\<open>ErrKeyRequired\<close> for a
    blank key, \<^verbatim>\<open>ErrKeyTooLarge\<close> for a key above \<^verbatim>\<open>MaxKeySize\<close>,
    \<^verbatim>\<open>ErrValueTooLarge\<close> for a value above \<^verbatim>\<open>MaxValueSize\<close>, and
    \<^verbatim>\<open>ErrIncompatibleValue\<close> when the key holds a nested bucket; on an error nothing
    is written;
  \<^item> \<^verbatim>\<open>CreateBucketIfNotExists\<close> returns the nested bucket under the key, creating
    an empty one when the key is absent; it returns \<^verbatim>\<open>ErrBucketNameRequired\<close> for a
    blank name and \<^verbatim>\<open>ErrIncompatibleValue\<close> when the key holds a value, and then the
    bucket it returns is nil;
  \<^item> \<^verbatim>\<open>NextSequence\<close> increments the bucket's counter (a \<^verbatim>\<open>uint64\<close>) and returns
    the new value.
\<close>

datatype boltError =
  ErrKeyRequired | ErrKeyTooLarge | ErrValueTooLarge | ErrIncompatibleValue
  | ErrBucketNameRequired

datatype bucket = Bucket (pairs: "bytes \<Rightarrow> entry option") (sequence: "64 word")
  and entry = Value bytes | Nested bucket

definition MaxKeySize :: nat where
  "MaxKeySize = 32768"

definition MaxValueSize :: nat where
  "MaxValueSize = 2147483646"

definition emptyBucket :: bucket where
  "emptyBucket = Bucket (\<lambda>k. None) 0"

definition Get :: "bucket \<Rightarrow> bytes \<Rightarrow> bytes option" where
  "Get b key = (case pairs b key of Some (Value v) \<Rightarrow> Some v | _ \<Rightarrow> None)"

definition Put :: "bytes \<Rightarrow> bytes \<Rightarrow> bucket \<Rightarrow> boltError + bucket" where
  "Put key val b =
     (if length key = 0 then Inl ErrKeyRequired
      else if length key > MaxKeySize then Inl ErrKeyTooLarge
      else if length val > MaxValueSize then Inl ErrValueTooLarge
      else case pairs b key of
             Some (Nested _) \<Rightarrow> Inl ErrIncompatibleValue
           | _ \<Rightarrow> Inr (Bucket ((pairs b)(key \<mapsto> Value val)) (sequence b)))"

definition NextSequence :: "bucket \<Rightarrow> 64 word \<times> bucket" where
  "NextSequence b = (sequence b + 1, Bucket (pairs b) (sequence b + 1))"

text \<open>
  \<open>CreateBucketIfNotExists key b\<close> returns the parent bucket, in which \<open>key\<close> now
  holds a nested bucket, together with that nested bucket.
\<close>

definition CreateBucketIfNotExists :: "bytes \<Rightarrow> bucket \<Rightarrow> boltError + (bucket \<times> bucket)" where
  "CreateBucketIfNotExists key b =
     (if length key = 0 then Inl ErrBucketNameRequired
      else case pairs b key of
             Some (Nested child) \<Rightarrow> Inr (b, child)
           | Some (Value _) \<Rightarrow> Inl ErrIncompatibleValue
           | None \<Rightarrow> Inr (Bucket ((pairs b)(key \<mapsto> Nested emptyBucket)) (sequence b),
                          emptyBucket))"

text \<open>
  The code drops the error of every \<^verbatim>\<open>Put\<close> (\<^verbatim>\<open>forwardMap.Put(...)\<close> as a
  statement): the bucket stays as it was when \<^verbatim>\<open>Put\<close> fails.
\<close>

definition PutUnchecked :: "bytes \<Rightarrow> bytes \<Rightarrow> bucket \<Rightarrow> bucket" where
  "PutUnchecked key val b = (case Put key val b of Inl err \<Rightarrow> b | Inr b' \<Rightarrow> b')"

text \<open>Writing a nested bucket back under its key in the parent.\<close>

definition setNested :: "bytes \<Rightarrow> bucket \<Rightarrow> bucket \<Rightarrow> bucket" where
  "setNested key child b = Bucket ((pairs b)(key \<mapsto> Nested child)) (sequence b)"

text \<open>
  Modelled from the spec: the table constants (\<^verbatim>\<open>UrlToPageId\<close>, ..., \<^verbatim>\<open>NumTable\<close>)
  are declared in a file that is not at hand; the spec lists the seven tables.
  \<^verbatim>\<open>LoadIndexer\<close> creates every table and \<^verbatim>\<open>DropAll\<close> recreates them, so
  \<^verbatim>\<open>tx.Bucket(intToByte(t))\<close> is never nil: a database is a total function from the
  table to its bucket.
\<close>

datatype table =
  UrlToPageId | PageIdToUrl | WordToWordId | WordIdToWord | ForwardTable | InvertedTable
  | PageInfo

type_synonym database = "table \<Rightarrow> bucket"

definition emptyDb :: database where
  "emptyDb = (\<lambda>t. emptyBucket)"

section \<open>The indexer\<close>

text \<open>
  \<^verbatim>\<open>models.Document\<close> is declared outside the files at hand; the indexer reads its
  fields \<^verbatim>\<open>Uri\<close>, \<^verbatim>\<open>Words\<close> (a \<^verbatim>\<open>map[string]int\<close>, here the list of its
  key-value pairs in the order the \<^verbatim>\<open>range\<close> loop visits them) and \<^verbatim>\<open>MaxTf\<close>.
\<close>

record Document =
  Uri :: string
  Words :: "(string \<times> 64 word) list"
  MaxTf :: "64 word"

text \<open>
  The writes of an ingestion in the order they were carried out: the staging and the
  forward-index write of a term, the write of the maximal term frequency and the
  write of the document record. The list is a history variable: the scheduler of the
  goroutines and \<^verbatim>\<open>UpdateOrAddPage\<close> append to it and nothing reads it.
\<close>

datatype event =
  Staged string
  | ForwardWritten string
  | MaxTfWritten
  | PageInfoWritten

text \<open>
  The \<^verbatim>\<open>Indexer\<close> struct. \<^verbatim>\<open>tempInverted\<close> is a \<^verbatim>\<open>map[uint64]map[uint64]bool\<close>:
  a nil outer map reads like an empty one and is made before the first write, so it
  is a map that starts empty; an inner map is the list of its key-value pairs.
\<close>

record Indexer =
  db :: database
  tempInverted :: "64 word \<Rightarrow> (64 word \<times> bool) list option"
  wordIdList :: "64 word list"
  history :: "event list"

definition LoadIndexer :: "database \<Rightarrow> Indexer" where
  "LoadIndexer file = \<lparr>db = file, tempInverted = (\<lambda>w. None), wordIdList = [], history = []\<rparr>"

subsection \<open>getId\<close>

text \<open>
  \<^verbatim>\<open>getId\<close> runs two transactions: a \<^verbatim>\<open>View\<close> that looks the text up, and, when
  the \<^verbatim>\<open>View\<close> found nothing, a \<^verbatim>\<open>Batch\<close> that allocates the next sequence number
  and writes both mappings.
\<close>

definition getId_View :: "string \<Rightarrow> table \<Rightarrow> Indexer \<Rightarrow> bytes option" where
  "getId_View text fwMapTable i = Get (db i fwMapTable) (toBytes text)"

definition getId_Batch :: "string \<Rightarrow> table \<Rightarrow> table \<Rightarrow> Indexer \<Rightarrow> bytes \<times> Indexer" where
  "getId_Batch text fwMapTable invMapTable i =
     (let (uniqueId, forwardMap) = NextSequence (db i fwMapTable);
          id' = uint64ToByte uniqueId;
          tables = (db i)(fwMapTable := PutUnchecked (toBytes text) id' forwardMap);
          invMap = tables invMapTable
      in (id', i\<lparr>db := tables(invMapTable := PutUnchecked id' (toBytes text) invMap)\<rparr>))"

definition getId :: "string \<Rightarrow> table \<Rightarrow> table \<Rightarrow> Indexer \<Rightarrow> bytes \<times> Indexer" where
  "getId text fwMapTable invMapTable i =
     (case getId_View text fwMapTable i of
        Some id' \<Rightarrow> (id', i)
      | None \<Rightarrow> getId_Batch text fwMapTable invMapTable i)"

definition getOrCreatePageId :: "string \<Rightarrow> Indexer \<Rightarrow> bytes \<times> Indexer" where
  "getOrCreatePageId url i = getId url UrlToPageId PageIdToUrl i"

definition getOrCreateWordId :: "string \<Rightarrow> Indexer \<Rightarrow> bytes \<times> Indexer" where
  "getOrCreateWordId word i = getId word WordToWordId WordIdToWord i"

subsection \<open>updateInverted\<close>

text \<open>
  The part of \<^verbatim>\<open>updateInverted\<close> after the word id is resolved: the two conversions
  and the critical section under the lock.
\<close>

definition updateInverted_locked :: "bytes \<Rightarrow> bytes \<Rightarrow> Indexer \<Rightarrow> panic + Indexer" where
  "updateInverted_locked wordId pageId i =
     (case byteToUint64 wordId of
        Inl p \<Rightarrow> Inl p
      | Inr wordIdUint64 \<Rightarrow>
          (case byteToUint64 pageId of
             Inl p \<Rightarrow> Inl p
           | Inr pageIdUint64 \<Rightarrow>
               (let (postingList, ids) =
                      (case tempInverted i wordIdUint64 of
                         None \<Rightarrow> ([], wordIdList i @ [wordIdUint64])
                       | Some l \<Rightarrow> (l, wordIdList i))
                in Inr (i\<lparr>tempInverted :=
                            (tempInverted i)(wordIdUint64 \<mapsto>
                               AList.update pageIdUint64 True postingList),
                          wordIdList := ids\<rparr>))))"

definition updateInverted :: "string \<Rightarrow> bytes \<Rightarrow> Indexer \<Rightarrow> panic + Indexer" where
  "updateInverted word pageId i =
     (let (wordId, i') = getOrCreateWordId word i
      in updateInverted_locked wordId pageId i')"

text \<open>A sequence of \<^verbatim>\<open>updateInverted\<close> calls, one after the other.\<close>

fun updateInverted_calls :: "(string \<times> bytes) list \<Rightarrow> Indexer \<Rightarrow> panic + Indexer" where
  "updateInverted_calls [] i = Inr i"
| "updateInverted_calls ((word, pageId) # calls) i =
     (case updateInverted word pageId i of
        Inl p \<Rightarrow> Inl p
      | Inr i' \<Rightarrow> updateInverted_calls calls i')"

subsection \<open>updateForward, setMaxTf, getMaxTf\<close>

text \<open>
  The \<^verbatim>\<open>Batch\<close> of \<^verbatim>\<open>updateForward\<close>. When \<^verbatim>\<open>CreateBucketIfNotExists\<close> fails, the
  code drops the error and calls \<^verbatim>\<open>Put\<close> on the nil bucket, which panics.
\<close>

definition updateForward_Batch ::
  "bytes \<Rightarrow> bytes \<Rightarrow> 64 word \<Rightarrow> table \<Rightarrow> Indexer \<Rightarrow> panic + Indexer" where
  "updateForward_Batch wordId pageId tf tablename i =
     (let fw = db i tablename
      in case CreateBucketIfNotExists pageId fw of
           Inl err \<Rightarrow> Inl NilPointerDereference
         | Inr (fw', set') \<Rightarrow>
             Inr (i\<lparr>db := (db i)(tablename :=
                    setNested pageId (PutUnchecked wordId (intToByte tf) set') fw')\<rparr>))"

definition updateForward ::
  "string \<Rightarrow> bytes \<Rightarrow> 64 word \<Rightarrow> table \<Rightarrow> Indexer \<Rightarrow> panic + Indexer" where
  "updateForward word pageId tf tablename i =
     (let (wordId, i') = getOrCreateWordId word i
      in updateForward_Batch wordId pageId tf tablename i')"

definition setMaxTf :: "bytes \<Rightarrow> 64 word \<Rightarrow> Indexer \<Rightarrow> Indexer" where
  "setMaxTf pageId maxTf i =
     i\<lparr>db := (db i)(ForwardTable :=
           PutUnchecked pageId (intToByte maxTf) (db i ForwardTable))\<rparr>"

text \<open>
  \<^verbatim>\<open>getMaxTf\<close> hands the result of \<^verbatim>\<open>Get\<close> to \<^verbatim>\<open>byteToInt\<close>; a nil result is a
  slice of length 0.
\<close>

definition getMaxTf :: "bytes \<Rightarrow> Indexer \<Rightarrow> panic + 64 word" where
  "getMaxTf pageId i =
     byteToInt (case Get (db i ForwardTable) pageId of None \<Rightarrow> [] | Some v \<Rightarrow> v)"

definition ContainsUrl :: "string \<Rightarrow> Indexer \<Rightarrow> bool" where
  "ContainsUrl url i = (Get (db i UrlToPageId) (toBytes url) \<noteq> None)"

subsection \<open>Goroutines\<close>

text \<open>
  \<^verbatim>\<open>UpdateOrAddPage\<close> starts two goroutines per term; they run concurrently and
  meet at \<^verbatim>\<open>wg.Wait()\<close>. What is atomic in a goroutine is one transaction of the
  store (a \<^verbatim>\<open>View\<close> or a \<^verbatim>\<open>Batch\<close>) or the section under the indexer's lock. A task
  is a goroutine together with the place it has reached and its local variables:
  \<^item> \<open>GoUpdateInverted\<close>, \<open>GoUpdateForward\<close>: started, about to run the \<^verbatim>\<open>View\<close> of
    \<^verbatim>\<open>getId\<close>;
  \<^item> \<open>UpdateInvertedAlloc\<close>, \<open>UpdateForwardAlloc\<close>: the \<^verbatim>\<open>View\<close> found no id, about
    to run the \<^verbatim>\<open>Batch\<close> of \<^verbatim>\<open>getId\<close>;
  \<^item> \<open>UpdateInvertedLock\<close>: the word id is resolved, about to enter the critical
    section; \<open>UpdateForwardBatch\<close>: about to run the \<^verbatim>\<open>Batch\<close> of
    \<^verbatim>\<open>updateForward\<close>;
  \<^item> \<open>Finished\<close>: the goroutine has called \<^verbatim>\<open>wg.Done()\<close>.

  Each closure is taken to see the loop variables of its own iteration (\<^verbatim>\<open>word\<close>,
  \<^verbatim>\<open>tf\<close>), as the loop is written and as Go binds them from version 1.22 on; a
  toolchain that shares the loop variables between the iterations lets a goroutine
  that starts late read the values of a later iteration, which is outside this model.

  These goroutines wait for their \<^verbatim>\<open>Batch\<close> to return, and it returns after the commit
  of its transaction; \<^verbatim>\<open>wg.Done()\<close> comes after that. What the function of the
  \<^verbatim>\<open>Batch\<close> writes is in the database from the commit on, so a \<^verbatim>\<open>Batch\<close> is one step
  here, taken at its commit. The goroutines of \<^verbatim>\<open>FlushInverted\<close> call \<^verbatim>\<open>wg.Done()\<close>
  before the commit and have a model of their own below.
\<close>

datatype task =
  GoUpdateInverted string bytes
  | UpdateInvertedAlloc string bytes
  | UpdateInvertedLock string bytes bytes
  | GoUpdateForward string bytes "64 word"
  | UpdateForwardAlloc string bytes "64 word"
  | UpdateForwardBatch string bytes bytes "64 word"
  | Finished

definition logEvent :: "event \<Rightarrow> Indexer \<Rightarrow> Indexer" where
  "logEvent e i = i\<lparr>history := history i @ [e]\<rparr>"

fun step :: "task \<Rightarrow> Indexer \<Rightarrow> panic + (task \<times> Indexer)" where
  "step (GoUpdateInverted word pageId) i =
     (case getId_View word WordToWordId i of
        Some wordId \<Rightarrow> Inr (UpdateInvertedLock word wordId pageId, i)
      | None \<Rightarrow> Inr (UpdateInvertedAlloc word pageId, i))"
| "step (UpdateInvertedAlloc word pageId) i =
     (let (wordId, i') = getId_Batch word WordToWordId WordIdToWord i
      in Inr (UpdateInvertedLock word wordId pageId, i'))"
| "step (UpdateInvertedLock word wordId pageId) i =
     (case updateInverted_locked wordId pageId i of
        Inl p \<Rightarrow> Inl p
      | Inr i' \<Rightarrow> Inr (Finished, logEvent (Staged word) i'))"
| "step (GoUpdateForward word pageId tf) i =
     (case getId_View word WordToWordId i of
        Some wordId \<Rightarrow> Inr (UpdateForwardBatch word wordId pageId tf, i)
      | None \<Rightarrow> Inr (UpdateForwardAlloc word pageId tf, i))"
| "step (UpdateForwardAlloc word pageId tf) i =
     (let (wordId, i') = getId_Batch word WordToWordId WordIdToWord i
      in Inr (UpdateForwardBatch word wordId pageId tf, i'))"
| "step (UpdateForwardBatch word wordId pageId tf) i =
     (case updateForward_Batch wordId pageId tf ForwardTable i of
        Inl p \<Rightarrow> Inl p
      | Inr i' \<Rightarrow> Inr (Finished, logEvent (ForwardWritten word) i'))"
| "step Finished i = Inr (Finished, i)"

text \<open>
  A schedule names, step by step, the goroutine that takes the next atomic step; a
  number that names no goroutine and a goroutine that has finished take none.
\<close>

fun run :: "nat list \<Rightarrow> task list \<Rightarrow> Indexer \<Rightarrow> panic + (task list \<times> Indexer)" where
  "run [] ts i = Inr (ts, i)"
| "run (k # sched) ts i =
     (if k < length ts then
        (case step (ts ! k) i of
           Inl p \<Rightarrow> Inl p
         | Inr (t', i') \<Rightarrow> run sched (ts[k := t']) i')
      else run sched ts i)"

text \<open>
  \<^verbatim>\<open>wg.Wait()\<close> returns when every goroutine has called \<^verbatim>\<open>wg.Done()\<close>. No goroutine
  blocks for ever and none takes more than three steps: after the steps of the
  schedule, the goroutines that are still running take their remaining steps.
\<close>

definition wait_schedule :: "nat \<Rightarrow> nat list" where
  "wait_schedule n = concat (map (\<lambda>k. [k, k, k]) [0 ..< n])"

definition goroutines :: "nat list \<Rightarrow> task list \<Rightarrow> Indexer \<Rightarrow> panic + Indexer" where
  "goroutines sched ts i =
     (case run (sched @ wait_schedule (length ts)) ts i of
        Inl p \<Rightarrow> Inl p
      | Inr (ts', i') \<Rightarrow> Inr i')"

text \<open>
  The write a goroutine has still to carry out: a goroutine carries out one write, in
  its last step.
\<close>

fun pending :: "task \<Rightarrow> event list" where
  "pending (GoUpdateInverted word pageId) = [Staged word]"
| "pending (UpdateInvertedAlloc word pageId) = [Staged word]"
| "pending (UpdateInvertedLock word wordId pageId) = [Staged word]"
| "pending (GoUpdateForward word pageId tf) = [ForwardWritten word]"
| "pending (UpdateForwardAlloc word pageId tf) = [ForwardWritten word]"
| "pending (UpdateForwardBatch word wordId pageId tf) = [ForwardWritten word]"
| "pending Finished = []"

text \<open>
  The schedule in which the goroutines \<open>ks\<close> run one after the other, each to its end.
\<close>

definition one_by_one :: "nat list \<Rightarrow> nat list" where
  "one_by_one ks = concat (map (\<lambda>k. [k, k, k]) ks)"

subsection \<open>UpdateOrAddPage\<close>

definition spawn :: "bytes \<Rightarrow> (string \<times> 64 word) list \<Rightarrow> task list" where
  "spawn pageId words =
     concat (map (\<lambda>(word, tf). [GoUpdateInverted word pageId, GoUpdateForward word pageId tf])
       words)"

text \<open>
  \<^verbatim>\<open>json.Marshal\<close> is a parameter: \<open>marshal p\<close> is the encoded document.
\<close>

definition UpdateOrAddPage ::
  "(Document \<Rightarrow> bytes) \<Rightarrow> nat list \<Rightarrow> Document \<Rightarrow> Indexer \<Rightarrow> panic + Indexer" where
  "UpdateOrAddPage marshal sched p i =
     (let (pageId, i1) = getOrCreatePageId (Uri p) i
      in case goroutines sched (spawn pageId (Words p)) i1 of
           Inl pn \<Rightarrow> Inl pn
         | Inr i2 \<Rightarrow>
             (let i3 = logEvent MaxTfWritten (setMaxTf pageId (MaxTf p) i2);
                  documents = db i3 PageInfo
              in Inr (logEvent PageInfoWritten
                   (i3\<lparr>db := (db i3)(PageInfo :=
                          PutUnchecked pageId (marshal p) documents)\<rparr>))))"

subsection \<open>FlushInverted\<close>

text \<open>
  The function that a goroutine of \<^verbatim>\<open>FlushInverted\<close> hands to \<^verbatim>\<open>Batch\<close>, without its
  last statement \<^verbatim>\<open>wg.Done()\<close>; the database of \<open>i\<close> is the state that the
  transaction of the function sees. A nil \<^verbatim>\<open>wordSet\<close> panics at the first \<^verbatim>\<open>Put\<close>,
  that is, when the posting list is not empty.
\<close>

definition FlushInverted_Batch :: "64 word \<Rightarrow> Indexer \<Rightarrow> panic + Indexer" where
  "FlushInverted_Batch id' i =
     (let idBytes = uint64ToByte id';
          inverted = db i InvertedTable;
          postingList = (case tempInverted i id' of None \<Rightarrow> [] | Some l \<Rightarrow> l)
      in case CreateBucketIfNotExists idBytes inverted of
           Inl err \<Rightarrow> (if postingList = [] then Inr i else Inl NilPointerDereference)
         | Inr (inverted', wordSet) \<Rightarrow>
             Inr (i\<lparr>db := (db i)(InvertedTable :=
                    setNested idBytes
                      (fold (\<lambda>(docId, _). PutUnchecked (uint64ToByte docId) [1]) postingList
                         wordSet)
                      inverted')\<rparr>))"

text \<open>
  \<^verbatim>\<open>Batch\<close> collects the calls that arrive together, runs their functions one after
  the other in one write transaction and commits that transaction afterwards; only
  then do the calls return. Write transactions do not overlap, and what a transaction
  has written is in the database from its commit on. The function of
  \<^verbatim>\<open>FlushInverted\<close> calls \<^verbatim>\<open>wg.Done()\<close> itself, as its last statement and so inside the
  transaction: the counter of the wait group is at zero as soon as the last function
  has run, whether the transaction that ran it is committed or not.

  The state of a flush is the indexer, whose database is the committed one; the
  working state of the write transaction that is open, if one is; and the word ids of
  the goroutines whose function has not run yet, which are as many as the counter of
  the wait group says. A move runs the function of one of these goroutines, in the
  open transaction or else in a new one, or commits the open transaction. As in
  \<^verbatim>\<open>UpdateOrAddPage\<close>, a function is taken to see the \<^verbatim>\<open>id\<close> of its own iteration.
\<close>

record flush =
  indexer :: Indexer
  openTx :: "database option"
  notRun :: "64 word list"

datatype move = RunFunction nat | Commit

definition txView :: "flush \<Rightarrow> database" where
  "txView f = (case openTx f of None \<Rightarrow> db (indexer f) | Some d \<Rightarrow> d)"

fun flush_step :: "move \<Rightarrow> flush \<Rightarrow> panic + flush" where
  "flush_step (RunFunction k) f =
     (if k < length (notRun f) then
        (case FlushInverted_Batch (notRun f ! k) ((indexer f)\<lparr>db := txView f\<rparr>) of
           Inl p \<Rightarrow> Inl p
         | Inr i' \<Rightarrow>
             Inr (f\<lparr>openTx := Some (db i'),
                    notRun := take k (notRun f) @ drop (Suc k) (notRun f)\<rparr>))
      else Inr f)"
| "flush_step Commit f =
     (case openTx f of
        None \<Rightarrow> Inr f
      | Some d \<Rightarrow> Inr (f\<lparr>indexer := (indexer f)\<lparr>db := d\<rparr>, openTx := None\<rparr>))"

fun flush_run :: "move list \<Rightarrow> flush \<Rightarrow> panic + flush" where
  "flush_run [] f = Inr f"
| "flush_run (m # sched) f =
     (case flush_step m f of
        Inl p \<Rightarrow> Inl p
      | Inr f' \<Rightarrow> flush_run sched f')"

text \<open>
  \<^verbatim>\<open>sort.Slice\<close> sorts the slice that \<^verbatim>\<open>i.wordIdList\<close> shares, so the field is sorted
  too. The \<^verbatim>\<open>Update\<close> that sets \<^verbatim>\<open>FillPercent\<close> changes no data. The goroutines are
  started in the order of the sorted list.

  \<^verbatim>\<open>wg.Wait()\<close> returns when every function has run, at that moment or later: after
  the moves of the schedule, the functions that have not run yet run in the open
  transaction, in the order in which they were started, and no commit follows. The
  result is the indexer as it is when \<^verbatim>\<open>FlushInverted\<close> returns, together with the
  working state of the transaction that is still open at that moment.
\<close>

definition FlushInverted :: "move list \<Rightarrow> Indexer \<Rightarrow> panic + (Indexer \<times> database option)" where
  "FlushInverted sched i =
     (let wordIdList' = sort (wordIdList i)
      in case flush_run (sched @ replicate (length wordIdList') (RunFunction 0))
                \<lparr>indexer = i\<lparr>wordIdList := wordIdList'\<rparr>, openTx = None,
                 notRun = wordIdList'\<rparr> of
           Inl p \<Rightarrow> Inl p
         | Inr f \<Rightarrow> Inr (indexer f, openTx f))"

text \<open>
  The indexer once the transaction that \<^verbatim>\<open>FlushInverted\<close> has left open is committed.
  No other write transaction begins before that.
\<close>

definition committed :: "Indexer \<times> database option \<Rightarrow> Indexer" where
  "committed r = (case snd r of None \<Rightarrow> fst r | Some d \<Rightarrow> (fst r)\<lparr>db := d\<rparr>)"

subsection \<open>Observations on the store and the staging\<close>

text \<open>\<open>staged i w p\<close>: page \<open>p\<close> is in the set staged for word id \<open>w\<close>.\<close>

definition staged :: "Indexer \<Rightarrow> 64 word \<Rightarrow> 64 word \<Rightarrow> bool" where
  "staged i w p = (case tempInverted i w of None \<Rightarrow> False | Some l \<Rightarrow> p \<in> fst ` set l)"

text \<open>\<open>posting d w\<close>: the keys of the sub-table of word id \<open>w\<close> in the inverted index.\<close>

definition posting :: "database \<Rightarrow> 64 word \<Rightarrow> bytes set" where
  "posting d w =
     (case pairs (d InvertedTable) (uint64ToByte w) of
        Some (Nested b) \<Rightarrow> dom (pairs b)
      | _ \<Rightarrow> {})"

text \<open>\<open>forwardEntry d pageId wordId\<close>: the value under \<open>wordId\<close> in the sub-table of
  \<open>pageId\<close> in the forward index.\<close>

definition forwardEntry :: "database \<Rightarrow> bytes \<Rightarrow> bytes \<Rightarrow> bytes option" where
  "forwardEntry d pageId wordId =
     (case pairs (d ForwardTable) pageId of
        Some (Nested b) \<Rightarrow> Get b wordId
      | _ \<Rightarrow> None)"

section \<open>Retrieval\<close>

text \<open>
  Modelled from the spec: \<^verbatim>\<open>database.Viewer\<close>, \<^verbatim>\<open>booleanFilter\<close> and \<^verbatim>\<open>intersect\<close>
  are used by the phrase search but declared in files that are not at hand.
  \<^item> The viewer gives the posting list of a term and the position list of a term in
    a page. \<^verbatim>\<open>intersect\<close> takes the page ids of \<^verbatim>\<open>searchPhrase\<close>, which are
    \<^verbatim>\<open>[]uint64\<close>, and the position lists of \<^verbatim>\<open>hasPhrase\<close> alike, so positions are
    \<^verbatim>\<open>uint64\<close> too.
  \<^item> \<^verbatim>\<open>intersect\<close> is the spec's "sorted two-pointer merge (linear in the sum of
    list sizes)".
  \<^item> \<^verbatim>\<open>booleanFilter\<close>: "fetch the posting list per term; sort the lists ascending by
    size; intersect pairwise using a sorted two-pointer merge; short-circuit to
    empty as soon as any intermediate result is empty. A single-term query
    degenerates to returning that term's posting list unchanged", and
    "\<^verbatim>\<open>booleanFilter([])\<close> returns an empty sequence".
\<close>

record Viewer =
  GetPostingList :: "string \<Rightarrow> 64 word list"
  GetPositionIndices :: "64 word \<Rightarrow> string \<Rightarrow> 64 word list"

fun intersect :: "64 word list \<Rightarrow> 64 word list \<Rightarrow> 64 word list" where
  "intersect [] b = []"
| "intersect (x # a) [] = []"
| "intersect (x # a) (y # b) =
     (if x < y then intersect a (y # b)
      else if y < x then intersect (x # a) b
      else x # intersect a b)"

fun intersect_lists :: "64 word list \<Rightarrow> 64 word list list \<Rightarrow> 64 word list" where
  "intersect_lists acc [] = acc"
| "intersect_lists acc (l # ls) =
     (if acc = [] then [] else intersect_lists (intersect acc l) ls)"

definition booleanFilter :: "string list \<Rightarrow> Viewer \<Rightarrow> 64 word list" where
  "booleanFilter terms viewer =
     (case sort_key length (map (GetPostingList viewer) terms) of
        [] \<Rightarrow> []
      | l # ls \<Rightarrow> intersect_lists l ls)"

record Bigram =
  n1 :: string
  n2 :: string

text \<open>The loop of \<^verbatim>\<open>splitToBigrams\<close>, with its index and the slice built so far.\<close>

function splitToBigrams_loop :: "string list \<Rightarrow> nat \<Rightarrow> Bigram list \<Rightarrow> Bigram list" where
  "splitToBigrams_loop query i bigrams =
     (if i + 1 < length query then
        splitToBigrams_loop query (i + 1)
          (bigrams @ [\<lparr>n1 = query ! i, n2 = query ! (i + 1)\<rparr>])
      else bigrams)"
  by pat_completeness auto
termination
  by (relation "measure (\<lambda>(query, i, bigrams). length query - i)") auto

declare splitToBigrams_loop.simps [simp del]

definition splitToBigrams :: "string list \<Rightarrow> Bigram list" where
  "splitToBigrams query = splitToBigrams_loop query 0 []"

text \<open>
  The loop of \<^verbatim>\<open>hasPhrase\<close> over the candidates. \<^verbatim>\<open>pos2[i]--\<close> is a subtraction on
  \<^verbatim>\<open>uint64\<close>: it wraps around at 0.
\<close>

fun hasPhrase_loop :: "Bigram \<Rightarrow> Viewer \<Rightarrow> 64 word list \<Rightarrow> 64 word list \<Rightarrow> 64 word list" where
  "hasPhrase_loop bigram viewer [] rv = rv"
| "hasPhrase_loop bigram viewer (id' # docIds) rv =
     (let pos1 = GetPositionIndices viewer id' (n1 bigram);
          pos2 = map (\<lambda>x. x - 1) (GetPositionIndices viewer id' (n2 bigram));
          common = intersect pos1 pos2
      in hasPhrase_loop bigram viewer docIds (if length common > 0 then rv @ [id'] else rv))"

definition hasPhrase :: "Bigram \<Rightarrow> Viewer \<Rightarrow> 64 word list" where
  "hasPhrase bigram viewer =
     hasPhrase_loop bigram viewer (booleanFilter [n1 bigram, n2 bigram] viewer) []"

text \<open>
  \<^verbatim>\<open>sort.Slice\<close> by length is \<open>sort_key length\<close>; \<^verbatim>\<open>sort.Slice\<close> is not stable, and
  which of two results of the same length comes first makes no difference to the set
  of pages that is left. \<^verbatim>\<open>docWithBigrams[0]\<close> panics on an empty slice. The last loop
  skips index 0 and intersects with the rest in order.
\<close>

definition searchPhrase :: "string list \<Rightarrow> Viewer \<Rightarrow> panic + 64 word list" where
  "searchPhrase query viewer =
     (if length query \<le> 1 then Inr (booleanFilter query viewer)
      else
        (let bigrams = splitToBigrams query;
             docWithBigrams = sort_key length (map (\<lambda>bigram. hasPhrase bigram viewer) bigrams)
         in case docWithBigrams of
              [] \<Rightarrow> Inl IndexOutOfRange
            | docs0 # rest \<Rightarrow> Inr (foldl intersect docs0 rest)))"

section \<open>Example inputs\<close>

text \<open>
  A viewer in which every term has the posting list 1, 2 and the terms a, b, c stand at
  the offsets 0, 1, 2 of every page.
\<close>

definition phraseViewer :: Viewer where
  "phraseViewer =
     \<lparr>GetPostingList = (\<lambda>t. [1, 2]),
      GetPositionIndices = (\<lambda>d t. if t = ''a'' then [0] else if t = ''b'' then [1] else [2])\<rparr>"

text \<open>
  A viewer for the page with the content b a b: its only page is 1, where a stands at
  offset 1 and b at the offsets 0 and 2.
\<close>

definition wrapViewer :: Viewer where
  "wrapViewer =
     \<lparr>GetPostingList = (\<lambda>t. [1]),
      GetPositionIndices = (\<lambda>d t. if t = ''a'' then [1] else [0, 2])\<rparr>"

section \<open>Notions used in the proofs and the examples\<close>

text \<open>The places of a goroutine from which one step, or two steps, reach the end.\<close>

fun last_step :: "task \<Rightarrow> bool" where
  "last_step (UpdateInvertedLock word wordId pageId) = True"
| "last_step (UpdateForwardBatch word wordId pageId tf) = True"
| "last_step Finished = True"
| "last_step t = False"

fun last_two :: "task \<Rightarrow> bool" where
  "last_two (GoUpdateInverted word pageId) = False"
| "last_two (GoUpdateForward word pageId tf) = False"
| "last_two t = True"

text \<open>What has been written and what is pending add up to what was pending at the
  start.\<close>

definition pending_all :: "task list \<Rightarrow> event multiset" where
  "pending_all ts = mset (concat (map pending ts))"

text \<open>The inverted index holds no plain value: every key of it is a sub-table.\<close>

definition sub_tables_only :: "Indexer \<Rightarrow> bool" where
  "sub_tables_only i = (\<forall>k v. pairs (db i InvertedTable) k \<noteq> Some (Value v))"

text \<open>
  The invariant of a flush started in \<open>i0\<close> for the word ids \<open>ws\<close>. \<open>merge_state i0 d w\<close>
  says that the posting list of \<open>w\<close> in the database \<open>d\<close> is the one of \<open>i0\<close>, with or
  without the pages staged for \<open>w\<close>. In the state that the open transaction sees, the
  word ids whose function has run have their sub-table and their staged pages.
\<close>

definition merge_state :: "Indexer \<Rightarrow> database \<Rightarrow> 64 word \<Rightarrow> bool" where
  "merge_state i0 d w =
     (posting d w = posting (db i0) w
      \<or> posting d w = posting (db i0) w \<union> uint64ToByte ` {p. staged i0 w p})"

definition flush_inv :: "Indexer \<Rightarrow> 64 word list \<Rightarrow> flush \<Rightarrow> bool" where
  "flush_inv i0 ws f =
     (set (notRun f) \<subseteq> set ws \<and> length (notRun f) \<le> length ws
      \<and> tempInverted (indexer f) = tempInverted i0 \<and> wordIdList (indexer f) = wordIdList i0
      \<and> history (indexer f) = history i0
      \<and> (\<forall>t. t \<noteq> InvertedTable \<longrightarrow> db (indexer f) t = db i0 t \<and> txView f t = db i0 t)
      \<and> (\<forall>w. merge_state i0 (db (indexer f)) w \<and> merge_state i0 (txView f) w)
      \<and> (\<forall>w. w \<notin> set ws \<longrightarrow>
             posting (db (indexer f)) w = posting (db i0) w
             \<and> posting (txView f) w = posting (db i0) w)
      \<and> (\<forall>w \<in> set ws. w \<notin> set (notRun f) \<longrightarrow>
             posting (txView f) w = posting (db i0) w \<union> uint64ToByte ` {p. staged i0 w p})
      \<and> (sub_tables_only i0 \<longrightarrow>
            sub_tables_only (indexer f) \<and> sub_tables_only ((indexer f)\<lparr>db := txView f\<rparr>)
            \<and> (\<forall>w \<in> set ws. w \<notin> set (notRun f) \<longrightarrow>
                  (\<exists>b. pairs (txView f InvertedTable) (uint64ToByte w) = Some (Nested b)))))"

text \<open>
  An indexer opened on a database that an earlier session has written: the inverted
  index holds page 1 under word id 1. The new session has staged page 2 for word id 1.
\<close>

definition secondSession :: Indexer where
  "secondSession =
     \<lparr>db = emptyDb(InvertedTable :=
             Bucket ((\<lambda>k. None)(uint64ToByte 1 \<mapsto>
               Nested (Bucket ((\<lambda>k. None)(uint64ToByte 1 \<mapsto> Value [1])) 0))) 0),
      tempInverted = (\<lambda>w. None)(1 \<mapsto> [(2, True)]),
      wordIdList = [1],
      history = []\<rparr>"

text \<open>
  A bucket that holds plain values only, and a pair of mapping tables as \<^verbatim>\<open>getId\<close>
  leaves them: every id in the forward table is the encoding of a number between 1
  and the sequence counter, and the inverse table maps it back to its key.
\<close>

definition plain_values :: "bucket \<Rightarrow> bool" where
  "plain_values b = (\<forall>k c. pairs b k \<noteq> Some (Nested c))"

definition ids_consistent :: "table \<Rightarrow> table \<Rightarrow> Indexer \<Rightarrow> bool" where
  "ids_consistent fwT invT i =
     (plain_values (db i fwT) \<and> plain_values (db i invT)
      \<and> (\<forall>key r. Get (db i fwT) key = Some r \<longrightarrow>
            (\<exists>n. r = uint64ToByte n \<and> 0 < unat n \<and> unat n \<le> unat (sequence (db i fwT)))
            \<and> Get (db i invT) r = Some key))"

text \<open>
  A goroutine of the ingestion of the page \<open>pg\<close>, at any of its places.
\<close>

fun page_task :: "bytes \<Rightarrow> task \<Rightarrow> bool" where
  "page_task pg (GoUpdateInverted word pageId) = (pageId = pg)"
| "page_task pg (UpdateInvertedAlloc word pageId) = (pageId = pg)"
| "page_task pg (UpdateInvertedLock word wordId pageId) = (pageId = pg)"
| "page_task pg (GoUpdateForward word pageId tf) = (pageId = pg)"
| "page_task pg (UpdateForwardAlloc word pageId tf) = (pageId = pg)"
| "page_task pg (UpdateForwardBatch word wordId pageId tf) = (pageId = pg)"
| "page_task pg Finished = True"

text \<open>
  What a step of a goroutine of the ingestion of the page \<open>pg\<close> may change: the tables
  of the urls, the inverted index and the document records stay; pages are only added
  to the staging, and only the page \<open>pg\<close>; the forward index changes under the key
  \<open>pg\<close> only, where a sub-table stays a sub-table and no plain value appears.
\<close>

definition ingest_rel :: "bytes \<Rightarrow> Indexer \<Rightarrow> Indexer \<Rightarrow> bool" where
  "ingest_rel pg i i' =
     (db i' InvertedTable = db i InvertedTable
      \<and> db i' UrlToPageId = db i UrlToPageId \<and> db i' PageIdToUrl = db i PageIdToUrl
      \<and> db i' PageInfo = db i PageInfo
      \<and> (\<forall>w q. staged i' w q \<longrightarrow> staged i w q \<or> byteToUint64 pg = Inr q)
      \<and> (\<forall>w q. staged i w q \<longrightarrow> staged i' w q)
      \<and> (set (wordIdList i) = dom (tempInverted i)
            \<longrightarrow> set (wordIdList i') = dom (tempInverted i'))
      \<and> (\<forall>k. k \<noteq> pg \<longrightarrow> pairs (db i' ForwardTable) k = pairs (db i ForwardTable) k)
      \<and> ((\<forall>v. pairs (db i ForwardTable) pg \<noteq> Some (Value v))
            \<longrightarrow> (\<forall>v. pairs (db i' ForwardTable) pg \<noteq> Some (Value v)))
      \<and> ((\<exists>b. pairs (db i ForwardTable) pg = Some (Nested b))
            \<longrightarrow> (\<exists>b. pairs (db i' ForwardTable) pg = Some (Nested b))))"

text \<open>
  The stored ids have at least the eight bytes that \<^verbatim>\<open>byteToUint64\<close> reads, and the
  forward index holds no plain value under the page id of the document: the conditions
  under which the ingestion of a document does not panic.
\<close>

definition url_ids_long :: "Indexer \<Rightarrow> bool" where
  "url_ids_long i = (\<forall>k v. Get (db i UrlToPageId) k = Some v \<longrightarrow> 8 \<le> length v)"

definition word_ids_long :: "Indexer \<Rightarrow> bool" where
  "word_ids_long i = (\<forall>k v. Get (db i WordToWordId) k = Some v \<longrightarrow> 8 \<le> length v)"

definition ready :: "Indexer \<Rightarrow> Document \<Rightarrow> bool" where
  "ready i p =
     (url_ids_long i \<and> word_ids_long i
      \<and> (Words p \<noteq> [] \<longrightarrow>
           (\<forall>v. pairs (db i ForwardTable) (fst (getOrCreatePageId (Uri p) i)) \<noteq> Some (Value v))))"

text \<open>
  The invariant of a run of the goroutines of an ingestion that does not panic.
\<close>

fun safe_task :: "bytes \<Rightarrow> task \<Rightarrow> bool" where
  "safe_task pg (UpdateInvertedLock word wordId pageId) = (pageId = pg \<and> 8 \<le> length wordId)"
| "safe_task pg t = page_task pg t"

definition ingest_safe :: "bytes \<Rightarrow> task list \<Rightarrow> Indexer \<Rightarrow> bool" where
  "ingest_safe pg ts i =
     ((\<forall>t \<in> set ts. safe_task pg t) \<and> word_ids_long i \<and> 8 \<le> length pg
      \<and> (\<forall>v. pairs (db i ForwardTable) pg \<noteq> Some (Value v)))"

text \<open>
  The writes of the terms of a document, in the order in which the goroutines are
  started.
\<close>

definition term_writes :: "(string \<times> 64 word) list \<Rightarrow> event list" where
  "term_writes words = concat (map (\<lambda>(word, tf). [Staged word, ForwardWritten word]) words)"

text \<open>
  Example documents.
\<close>

definition twoTermDoc :: Document where
  "twoTermDoc = \<lparr>Uri = ''u1'', Words = [(''quick'', 1), (''fox'', 2)], MaxTf = 2\<rparr>"

definition racingDoc :: Document where
  "racingDoc = \<lparr>Uri = ''u1'', Words = [(''quick'', 1)], MaxTf = 1\<rparr>"

definition maxTfDoc :: Document where
  "maxTfDoc = \<lparr>Uri = ''u1'', Words = [(''quick'', 3)], MaxTf = 3\<rparr>"

text \<open>
  A goroutine of \<^verbatim>\<open>updateForward\<close> that has not finished, and the invariant that the
  page has its sub-table in the forward index once one of them has finished.
\<close>

fun forward_task :: "task \<Rightarrow> bool" where
  "forward_task (GoUpdateForward word pageId tf) = True"
| "forward_task (UpdateForwardAlloc word pageId tf) = True"
| "forward_task (UpdateForwardBatch word wordId pageId tf) = True"
| "forward_task t = False"

definition forward_inv :: "bytes \<Rightarrow> task list \<Rightarrow> task list \<Rightarrow> Indexer \<Rightarrow> bool" where
  "forward_inv pg ts0 ts i =
     (length ts = length ts0 \<and> (\<forall>t \<in> set ts. page_task pg t)
      \<and> ((\<exists>k < length ts0. forward_task (ts0 ! k) \<and> \<not> forward_task (ts ! k))
            \<longrightarrow> (\<exists>b. pairs (db i ForwardTable) pg = Some (Nested b))))"

text \<open>
  A second page with the term quick, and a document with the empty URI.
\<close>

definition otherDoc :: Document where
  "otherDoc = \<lparr>Uri = ''u2'', Words = [(''quick'', 1)], MaxTf = 1\<rparr>"

definition emptyUriDoc :: Document where
  "emptyUriDoc = \<lparr>Uri = [], Words = [(''quick'', 1)], MaxTf = 1\<rparr>"

section \<open>Facts about the helpers\<close>

lemma length_uint64ToByte: "length (uint64ToByte i) = 8"
  by (simp add: uint64ToByte_def)

lemma ucast_ucast_byte: "(ucast (ucast (w :: 64 word) :: 8 word) :: 64 word) = take_bit 8 w"
  by (rule bit_eqI) (auto simp: bit_simps)

lemma push_drop_byte:
  "push_bit 8 (drop_bit (k + 8) (v :: 64 word)) OR take_bit 8 (drop_bit k v) = drop_bit k v"
  apply (rule bit_eqI)
  apply (simp add: bit_simps)
  apply (case_tac "n < 8")
   apply (auto simp: bit_simps add.commute add.left_commute)
  done

lemma byteToUint64_uint64ToByte: "byteToUint64 (uint64ToByte v) = Inr v"
proof -
  have top: "drop_bit 56 v = push_bit 8 (0 :: 64 word) OR take_bit 8 (drop_bit 56 v)"
    by (rule bit_eqI) (auto simp: bit_simps dest: bit_imp_le_length)
  show ?thesis
    unfolding byteToUint64_def uint64ToByte_def
    using push_drop_byte [of 48 v] push_drop_byte [of 40 v] push_drop_byte [of 32 v]
      push_drop_byte [of 24 v] push_drop_byte [of 16 v] push_drop_byte [of 8 v]
      push_drop_byte [of 0 v] top
    by (simp add: ucast_ucast_byte)
qed

lemma uint64ToByte_inj: "uint64ToByte v = uint64ToByte w \<Longrightarrow> v = w"
  by (metis byteToUint64_uint64ToByte sum.inject(2))

lemma unat_of_char: "unat (of_char c :: 8 word) = of_char c"
proof -
  have "(of_char c :: 8 word) = of_nat (of_char c)"
    by (simp add: of_char_def of_nat_of_char)
  moreover have "(of_char c :: nat) < 256"
    by simp
  ultimately show ?thesis
    by (simp add: unat_of_nat take_bit_nat_eq_self)
qed

lemma of_char_byte_inj: "(of_char c :: 8 word) = of_char d \<Longrightarrow> c = d"
  by (metis unat_of_char of_char_eq_iff)

lemma toBytes_inj: "toBytes s = toBytes t \<Longrightarrow> s = t"
  unfolding toBytes_def
  by (rule list.inj_map_strong [of s t of_char of_char]) (auto dest: of_char_byte_inj)

lemma length_toBytes: "length (toBytes s) = length s"
  by (simp add: toBytes_def)

section \<open>The staging structure\<close>

lemma getId_staging:
  "getId text fwT invT i = (r, i') \<Longrightarrow>
     tempInverted i' = tempInverted i \<and> wordIdList i' = wordIdList i"
  by (auto simp: getId_def getId_Batch_def Let_def split: option.splits prod.splits)

lemma updateInverted_locked_staging:
  assumes "updateInverted_locked wordId pageId i = Inr i'"
    and "distinct (wordIdList i)" and "set (wordIdList i) = dom (tempInverted i)"
  shows "distinct (wordIdList i') \<and> set (wordIdList i') = dom (tempInverted i')"
  using assms
  by (auto simp: updateInverted_locked_def Let_def split: sum.splits option.splits if_splits)

lemma updateInverted_staging:
  assumes "updateInverted word pageId i = Inr i'"
    and "distinct (wordIdList i)" and "set (wordIdList i) = dom (tempInverted i)"
  shows "distinct (wordIdList i') \<and> set (wordIdList i') = dom (tempInverted i')"
proof -
  obtain wordId i1 where g: "getOrCreateWordId word i = (wordId, i1)"
    by (cases "getOrCreateWordId word i")
  then have "tempInverted i1 = tempInverted i \<and> wordIdList i1 = wordIdList i"
    unfolding getOrCreateWordId_def by (rule getId_staging)
  moreover from g assms(1) have "updateInverted_locked wordId pageId i1 = Inr i'"
    by (simp add: updateInverted_def)
  ultimately show ?thesis
    using assms(2,3) updateInverted_locked_staging [of wordId pageId i1 i'] by simp
qed

lemma updateInverted_calls_staging:
  assumes "updateInverted_calls calls i = Inr i'"
    and "distinct (wordIdList i)" and "set (wordIdList i) = dom (tempInverted i)"
  shows "distinct (wordIdList i') \<and> set (wordIdList i') = dom (tempInverted i')"
  using assms
proof (induction calls arbitrary: i)
  case Nil
  then show ?case by simp
next
  case (Cons c calls)
  obtain word pageId where c: "c = (word, pageId)"
    by (cases c)
  from Cons.prems(1) c obtain i1 where
    u: "updateInverted word pageId i = Inr i1" and r: "updateInverted_calls calls i1 = Inr i'"
    by (auto split: sum.splits)
  from updateInverted_staging [OF u Cons.prems(2,3)] Cons.IH [OF r] show ?case
    by simp
qed

text \<open>
  C10. After any sequence of \<^verbatim>\<open>updateInverted\<close> calls on a freshly loaded indexer,
  \<^verbatim>\<open>wordIdList\<close> holds each word id at most once, and its elements are exactly the
  keys of \<^verbatim>\<open>tempInverted\<close>.
\<close>

theorem staging_wordIdList_keys:
  assumes "updateInverted_calls calls (LoadIndexer file) = Inr i"
  shows "distinct (wordIdList i) \<and> set (wordIdList i) = dom (tempInverted i)"
  using updateInverted_calls_staging [OF assms]
  by (simp add: LoadIndexer_def)

theorem staging_wordIdList_keys_witness:
  "\<exists>i. updateInverted_calls [(''quick'', uint64ToByte 1), (''quick'', uint64ToByte 2)]
         (LoadIndexer emptyDb) = Inr i
       \<and> distinct (wordIdList i) \<and> set (wordIdList i) = dom (tempInverted i)"
proof -
  have "\<exists>i. updateInverted_calls [(''quick'', uint64ToByte 1), (''quick'', uint64ToByte 2)]
         (LoadIndexer emptyDb) = Inr i"
    by (simp add: updateInverted_def updateInverted_locked_def getOrCreateWordId_def getId_def
        getId_View_def getId_Batch_def LoadIndexer_def emptyDb_def emptyBucket_def
        NextSequence_def PutUnchecked_def Put_def Get_def toBytes_def MaxKeySize_def
        MaxValueSize_def byteToUint64_uint64ToByte length_uint64ToByte Let_def)
  then obtain i where r: "updateInverted_calls
         [(''quick'', uint64ToByte 1), (''quick'', uint64ToByte 2)] (LoadIndexer emptyDb) = Inr i" ..
  from staging_wordIdList_keys [OF r] r show ?thesis
    by blast
qed

section \<open>Phrase search\<close>

lemma intersect_subset: "set (intersect a b) \<subseteq> set a"
  by (induction a b rule: intersect.induct) auto

lemma intersect_set:
  "sorted a \<Longrightarrow> sorted b \<Longrightarrow> set (intersect a b) = set a \<inter> set b"
proof (induction a b rule: intersect.induct)
  case (1 b)
  then show ?case by simp
next
  case (2 x a)
  then show ?case by simp
next
  case (3 x a y b)
  show ?case
  proof (cases "x < y")
    case True
    with 3 have "x \<notin> set (y # b)" by auto
    with True 3 show ?thesis by auto
  next
    case False
    show ?thesis
    proof (cases "y < x")
      case True
      with 3 have "y \<notin> set (x # a)" by auto
      with True False 3 show ?thesis by auto
    next
      case ny: False
      with False have "x = y" by simp
      with False ny 3 show ?thesis by auto
    qed
  qed
qed

lemma intersect_sorted: "sorted a \<Longrightarrow> sorted (intersect a b)"
proof (induction a b rule: intersect.induct)
  case (3 x a y b)
  then show ?case
    using intersect_subset [of a b] by (auto simp: subset_iff)
qed simp_all

lemma intersect_lists_sorted: "sorted acc \<Longrightarrow> sorted (intersect_lists acc ls)"
  by (induction ls arbitrary: acc) (auto simp: intersect_sorted)

lemma foldl_intersect_sorted: "sorted acc \<Longrightarrow> sorted (foldl intersect acc ls)"
  by (induction ls arbitrary: acc) (auto simp: intersect_sorted)

lemma foldl_intersect_set:
  "sorted acc \<Longrightarrow> \<forall>l \<in> set ls. sorted l \<Longrightarrow>
     set (foldl intersect acc ls) = set acc \<inter> (\<Inter>l \<in> set ls. set l)"
  by (induction ls arbitrary: acc) (auto simp: intersect_sorted intersect_set)

lemma hasPhrase_loop_filter:
  "hasPhrase_loop bigram viewer docIds rv =
     rv @ filter (\<lambda>d. intersect (GetPositionIndices viewer d (n1 bigram))
                         (map (\<lambda>x. x - 1) (GetPositionIndices viewer d (n2 bigram))) \<noteq> [])
            docIds"
  by (induction docIds arbitrary: rv) (auto simp: Let_def)

lemma booleanFilter_sorted:
  assumes "\<forall>t \<in> set terms. sorted (GetPostingList viewer t)"
  shows "sorted (booleanFilter terms viewer)"
proof (cases "sort_key length (map (GetPostingList viewer) terms)")
  case Nil
  then show ?thesis by (simp add: booleanFilter_def)
next
  case (Cons l ls)
  then have "l \<in> set (sort_key length (map (GetPostingList viewer) terms))" by simp
  then have "l \<in> GetPostingList viewer ` set terms" by simp
  with assms have "sorted l" by auto
  with Cons show ?thesis by (simp add: booleanFilter_def intersect_lists_sorted)
qed

lemma hasPhrase_sorted:
  assumes "sorted (GetPostingList viewer (n1 bigram))" "sorted (GetPostingList viewer (n2 bigram))"
  shows "sorted (hasPhrase bigram viewer)"
proof -
  have "sorted (booleanFilter [n1 bigram, n2 bigram] viewer)"
    using assms by (intro booleanFilter_sorted) simp
  then show ?thesis
    by (simp add: hasPhrase_def hasPhrase_loop_filter sorted_wrt_filter)
qed

lemma splitToBigrams_loop_eq:
  "splitToBigrams_loop query i bigrams =
     bigrams @ map (\<lambda>j. \<lparr>n1 = query ! j, n2 = query ! (j + 1)\<rparr>) [i ..< length query - 1]"
proof (induction query i bigrams rule: splitToBigrams_loop.induct)
  case (1 query i bigrams)
  show ?case
  proof (cases "i + 1 < length query")
    case True
    then have "[i ..< length query - 1] = i # [i + 1 ..< length query - 1]"
      by (simp add: upt_conv_Cons)
    with True 1 show ?thesis
      by (subst splitToBigrams_loop.simps) simp
  next
    case False
    then show ?thesis
      by (subst splitToBigrams_loop.simps) simp
  qed
qed

lemma splitToBigrams_eq:
  "splitToBigrams query = map (\<lambda>j. \<lparr>n1 = query ! j, n2 = query ! (j + 1)\<rparr>) [0 ..< length query - 1]"
  by (simp add: splitToBigrams_def splitToBigrams_loop_eq)

text \<open>
  C8. A query of at most one term is answered by \<^verbatim>\<open>booleanFilter\<close>: the empty query
  gives the empty sequence, and a single term gives what \<^verbatim>\<open>booleanFilter\<close> gives for
  it.
\<close>

theorem searchPhrase_short_query:
  assumes "length query \<le> 1"
  shows "searchPhrase query viewer = Inr (booleanFilter query viewer)
    \<and> searchPhrase [] viewer = Inr []
    \<and> searchPhrase [t] viewer = Inr (booleanFilter [t] viewer)"
  using assms by (simp add: searchPhrase_def booleanFilter_def)

theorem searchPhrase_short_query_witness:
  "searchPhrase [''a''] phraseViewer = Inr [1, 2] \<and> searchPhrase [] phraseViewer = Inr []"
proof -
  have "length [''a''] \<le> 1" by simp
  from searchPhrase_short_query [OF this, of phraseViewer] show ?thesis
    by (simp add: booleanFilter_def phraseViewer_def)
qed

text \<open>
  C7. For a query of at least two terms whose posting lists are in ascending order (the
  key order of the store), \<^verbatim>\<open>splitToBigrams\<close> gives the adjacent pairs in query
  order, one less than there are terms; \<^verbatim>\<open>searchPhrase\<close> sorts the \<^verbatim>\<open>hasPhrase\<close>
  results by length and intersects them from the first on, and the pages it returns
  are exactly the pages that are in the \<^verbatim>\<open>hasPhrase\<close> result of every bigram.
\<close>

theorem searchPhrase_bigrams:
  assumes "2 \<le> length query" and "\<forall>t \<in> set query. sorted (GetPostingList viewer t)"
  shows "splitToBigrams query =
           map (\<lambda>j. \<lparr>n1 = query ! j, n2 = query ! (j + 1)\<rparr>) [0 ..< length query - 1]
    \<and> length (splitToBigrams query) = length query - 1
    \<and> (\<exists>docs0 rest.
          sort_key length (map (\<lambda>bigram. hasPhrase bigram viewer) (splitToBigrams query))
            = docs0 # rest
          \<and> sorted (map length (docs0 # rest))
          \<and> searchPhrase query viewer = Inr (foldl intersect docs0 rest)
          \<and> set (foldl intersect docs0 rest)
              = (\<Inter>bigram \<in> set (splitToBigrams query). set (hasPhrase bigram viewer)))"
proof -
  let ?bs = "splitToBigrams query"
  let ?L = "sort_key length (map (\<lambda>bigram. hasPhrase bigram viewer) ?bs)"
  have bs: "?bs = map (\<lambda>j. \<lparr>n1 = query ! j, n2 = query ! (j + 1)\<rparr>) [0 ..< length query - 1]"
    by (rule splitToBigrams_eq)
  then have len: "length ?bs = length query - 1"
    by simp
  have terms: "n1 b \<in> set query \<and> n2 b \<in> set query" if "b \<in> set ?bs" for b
  proof -
    from that bs obtain j where "j < length query - 1" "b = \<lparr>n1 = query ! j, n2 = query ! (j + 1)\<rparr>"
      by auto
    then show ?thesis by simp
  qed
  have srt: "sorted l" if "l \<in> set ?L" for l
  proof -
    from that obtain b where "b \<in> set ?bs" "l = hasPhrase b viewer"
      by auto
    with terms [of b] assms(2) show ?thesis
      by (simp add: hasPhrase_sorted)
  qed
  from len assms(1) have "length ?L \<noteq> 0"
    by simp
  then obtain docs0 rest where L: "?L = docs0 # rest"
    by (cases ?L) auto
  from assms(1) L have sp: "searchPhrase query viewer = Inr (foldl intersect docs0 rest)"
    by (simp add: searchPhrase_def Let_def)
  have "sorted docs0" and "\<forall>l \<in> set rest. sorted l"
    using srt L by auto
  then have "set (foldl intersect docs0 rest) = set docs0 \<inter> (\<Inter>l \<in> set rest. set l)"
    by (rule foldl_intersect_set)
  also have "\<dots> = (\<Inter>l \<in> set ?L. set l)"
    by (simp add: L)
  also have "\<dots> = (\<Inter>bigram \<in> set ?bs. set (hasPhrase bigram viewer))"
    by simp
  finally have s: "set (foldl intersect docs0 rest)
      = (\<Inter>bigram \<in> set ?bs. set (hasPhrase bigram viewer))" .
  have "sorted (map length ?L)"
    by (rule sorted_sort_key)
  then have "sorted (map length (docs0 # rest))"
    by (simp only: L)
  with s bs len L sp show ?thesis
    by blast
qed

theorem searchPhrase_bigrams_witness:
  "splitToBigrams [''a'', ''b'', ''c''] = [\<lparr>n1 = ''a'', n2 = ''b''\<rparr>, \<lparr>n1 = ''b'', n2 = ''c''\<rparr>]
   \<and> (\<exists>docs. searchPhrase [''a'', ''b'', ''c''] phraseViewer = Inr docs
         \<and> set docs = set (hasPhrase \<lparr>n1 = ''a'', n2 = ''b''\<rparr> phraseViewer)
                        \<inter> set (hasPhrase \<lparr>n1 = ''b'', n2 = ''c''\<rparr> phraseViewer))"
proof -
  have q: "2 \<le> length [''a'', ''b'', ''c'']"
    by simp
  have p: "\<forall>t \<in> set [''a'', ''b'', ''c'']. sorted (GetPostingList phraseViewer t)"
    by (simp add: phraseViewer_def)
  have u: "[0 ..< 2] = [0, 1]"
    by (simp add: upt_rec)
  from searchPhrase_bigrams [OF q p] show ?thesis
    by (auto simp: u)
qed

text \<open>
  C6. \<^verbatim>\<open>hasPhrase\<close> at the bigram (a, b) on the page b a b: page 1 is a candidate, the
  positions of a and the decremented positions of b share the value 1, but the
  decrement of position 0 wraps around to the largest \<^verbatim>\<open>uint64\<close>, the decremented
  list is no longer ascending, the two-pointer merge finds nothing and the page is
  dropped.
\<close>

theorem hasPhrase_position_zero:
  "booleanFilter [''a'', ''b''] wrapViewer = [1]
   \<and> set (GetPositionIndices wrapViewer 1 ''a'')
       \<inter> set (map (\<lambda>x. x - 1) (GetPositionIndices wrapViewer 1 ''b'')) \<noteq> {}
   \<and> map (\<lambda>x. x - 1) (GetPositionIndices wrapViewer 1 ''b'') = [18446744073709551615, 1]
   \<and> hasPhrase \<lparr>n1 = ''a'', n2 = ''b''\<rparr> wrapViewer = []"
  by (simp add: hasPhrase_def booleanFilter_def wrapViewer_def flip: word_order.not_eq_extremum)

text \<open>
  Where no position of the second term is 0, the decrement keeps the order of the
  position list, and the test of \<^verbatim>\<open>hasPhrase\<close> is the test for a common value.
\<close>

lemma word_pred_mono: "(x :: 64 word) \<le> y \<Longrightarrow> x \<noteq> 0 \<Longrightarrow> x - 1 \<le> y - 1"
  by (simp add: word_le_minus_mono_left word_le_sub1)

lemma sorted_decrement:
  "sorted (pos :: 64 word list) \<Longrightarrow> 0 \<notin> set pos \<Longrightarrow> sorted (map (\<lambda>x. x - 1) pos)"
proof (induction pos)
  case Nil
  then show ?case by simp
next
  case (Cons x pos)
  then show ?case
    by (auto intro: word_pred_mono)
qed

lemma hasPhrase_without_position_zero:
  assumes "\<forall>d. sorted (GetPositionIndices viewer d (n1 bigram))"
    and "\<forall>d. sorted (GetPositionIndices viewer d (n2 bigram))"
    and "\<forall>d. 0 \<notin> set (GetPositionIndices viewer d (n2 bigram))"
  shows "set (hasPhrase bigram viewer) =
     {d \<in> set (booleanFilter [n1 bigram, n2 bigram] viewer).
        set (GetPositionIndices viewer d (n1 bigram))
          \<inter> set (map (\<lambda>x. x - 1) (GetPositionIndices viewer d (n2 bigram))) \<noteq> {}}"
proof -
  have "intersect (GetPositionIndices viewer d (n1 bigram))
          (map (\<lambda>x. x - 1) (GetPositionIndices viewer d (n2 bigram))) \<noteq> []
      \<longleftrightarrow> set (GetPositionIndices viewer d (n1 bigram))
          \<inter> set (map (\<lambda>x. x - 1) (GetPositionIndices viewer d (n2 bigram))) \<noteq> {}" for d
  proof -
    from assms(2,3) have "sorted (map (\<lambda>x. x - 1) (GetPositionIndices viewer d (n2 bigram)))"
      by (simp add: sorted_decrement)
    with assms(1) have "set (intersect (GetPositionIndices viewer d (n1 bigram))
          (map (\<lambda>x. x - 1) (GetPositionIndices viewer d (n2 bigram))))
        = set (GetPositionIndices viewer d (n1 bigram))
          \<inter> set (map (\<lambda>x. x - 1) (GetPositionIndices viewer d (n2 bigram)))"
      by (intro intersect_set) simp_all
    then show ?thesis
      by (metis set_empty)
  qed
  then show ?thesis
    by (simp add: hasPhrase_def hasPhrase_loop_filter)
qed

section \<open>Runs of goroutines\<close>

lemma run_append:
  "run (a @ b) ts i =
     (case run a ts i of Inl p \<Rightarrow> Inl p | Inr (ts', i') \<Rightarrow> run b ts' i')"
  by (induction a arbitrary: ts i) (auto split: sum.splits prod.splits)

lemma run_length: "run sched ts i = Inr (ts', i') \<Longrightarrow> length ts' = length ts"
proof (induction sched arbitrary: ts i)
  case Nil
  then show ?case by simp
next
  case (Cons k sched)
  then show ?case
    by (fastforce split: if_splits sum.splits prod.splits)
qed

lemma run_invariant:
  assumes "run sched ts i = Inr (ts', i')" and "I ts i"
    and "\<And>ts i k t' i'. I ts i \<Longrightarrow> k < length ts \<Longrightarrow> step (ts ! k) i = Inr (t', i')
           \<Longrightarrow> I (ts[k := t']) i'"
  shows "I ts' i'"
  using assms(1,2)
proof (induction sched arbitrary: ts i)
  case Nil
  then show ?case by simp
next
  case (Cons k sched)
  show ?case
  proof (cases "k < length ts")
    case True
    with Cons.prems(1) obtain t1 i1 where
      s: "step (ts ! k) i = Inr (t1, i1)" and r: "run sched (ts[k := t1]) i1 = Inr (ts', i')"
      by (auto split: sum.splits prod.splits)
    from assms(3) [OF Cons.prems(2) True s] have "I (ts[k := t1]) i1" .
    with Cons.IH r show ?thesis by blast
  next
    case False
    with Cons show ?thesis by simp
  qed
qed

lemma run_total:
  assumes "I ts i"
    and "\<And>ts i k. I ts i \<Longrightarrow> k < length ts
           \<Longrightarrow> \<exists>t' i'. step (ts ! k) i = Inr (t', i') \<and> I (ts[k := t']) i'"
  shows "\<exists>ts' i'. run sched ts i = Inr (ts', i') \<and> I ts' i'"
  using assms(1)
proof (induction sched arbitrary: ts i)
  case Nil
  then show ?case by simp
next
  case (Cons k sched)
  show ?case
  proof (cases "k < length ts")
    case True
    from assms(2) [OF Cons.prems True] obtain t1 i1 where
      s: "step (ts ! k) i = Inr (t1, i1)" and inv: "I (ts[k := t1]) i1"
      by blast
    from Cons.IH [OF inv] s True show ?thesis by simp
  next
    case False
    with Cons show ?thesis by simp
  qed
qed

lemma run_all_finished:
  "\<forall>t \<in> set ts. t = Finished \<Longrightarrow> run sched ts i = Inr (ts, i)"
proof (induction sched)
  case Nil
  then show ?case by simp
next
  case (Cons k sched)
  show ?case
  proof (cases "k < length ts")
    case True
    with Cons.prems have f: "ts ! k = Finished" by simp
    then have u: "ts[k := Finished] = ts"
      by (metis list_update_id)
    from f have "step (ts ! k) i = Inr (Finished, i)" by simp
    with True u Cons show ?thesis by simp
  next
    case False
    with Cons show ?thesis by simp
  qed
qed

text \<open>Every step but the last keeps the pending write and the history; the last step
  carries the write out.\<close>

lemma getId_Batch_history: "getId_Batch text fwT invT i = (r, i') \<Longrightarrow> history i' = history i"
  by (auto simp: getId_Batch_def Let_def split: prod.splits)

lemma step_pending:
  assumes "step t i = Inr (t', i')"
  shows "(t' \<noteq> Finished \<and> pending t' = pending t \<and> history i' = history i)
       \<or> (t' = Finished \<and> history i' = history i @ pending t)"
  using assms
  by (cases t)
    (auto simp: logEvent_def updateInverted_locked_def updateForward_Batch_def Let_def
      dest: getId_Batch_history split: option.splits sum.splits prod.splits if_splits)

lemma step_last: "last_step t \<Longrightarrow> step t i = Inr (t', i') \<Longrightarrow> t' = Finished"
  by (cases t) (auto split: sum.splits)

lemma step_last_two: "last_two t \<Longrightarrow> step t i = Inr (t', i') \<Longrightarrow> last_step t'"
  by (cases t) (auto split: sum.splits prod.splits)

lemma step_first: "step t i = Inr (t', i') \<Longrightarrow> last_two t'"
  by (cases t) (auto split: sum.splits prod.splits option.splits)

lemma three_steps:
  assumes "run [k, k, k] ts i = Inr (ts', i')" and "k < length ts"
  shows "ts' = ts[k := Finished] \<and> history i' = history i @ pending (ts ! k)"
proof -
  from assms obtain t1 i1 where s1: "step (ts ! k) i = Inr (t1, i1)"
    and r1: "run [k, k] (ts[k := t1]) i1 = Inr (ts', i')"
    by (auto split: sum.splits prod.splits)
  from r1 assms(2) obtain t2 i2 where s2: "step t1 i1 = Inr (t2, i2)"
    and r2: "run [k] (ts[k := t2]) i2 = Inr (ts', i')"
    by (auto split: sum.splits prod.splits)
  from r2 assms(2) obtain t3 i3 where s3: "step t2 i2 = Inr (t3, i3)"
    and r3: "ts' = ts[k := t3]" "i' = i3"
    by (auto split: sum.splits prod.splits)
  from step_first [OF s1] step_last_two [OF _ s2] step_last [OF _ s3] have f: "t3 = Finished"
    by blast
  from step_pending [OF s1] step_pending [OF s2] step_pending [OF s3] f
  have "history i3 = history i @ pending (ts ! k)"
    by auto
  with f r3 show ?thesis by simp
qed

lemma run_one_by_one:
  assumes "run (one_by_one ks) ts i = Inr (ts', i')" and "distinct ks"
    and "\<forall>k \<in> set ks. k < length ts"
  shows "history i' = history i @ concat (map (\<lambda>k. pending (ts ! k)) ks)
       \<and> length ts' = length ts
       \<and> (\<forall>k < length ts. ts' ! k = (if k \<in> set ks then Finished else ts ! k))"
  using assms
proof (induction ks arbitrary: ts i)
  case Nil
  then show ?case by (simp add: one_by_one_def)
next
  case (Cons k ks)
  have split: "one_by_one (k # ks) = [k, k, k] @ one_by_one ks"
    by (simp add: one_by_one_def)
  from Cons.prems(1) obtain ts1 i1 where
    a: "run [k, k, k] ts i = Inr (ts1, i1)" and b: "run (one_by_one ks) ts1 i1 = Inr (ts', i')"
    unfolding split run_append by (auto split: sum.splits prod.splits)
  from Cons.prems(3) have kl: "k < length ts" by simp
  from three_steps [OF a kl] have ts1: "ts1 = ts[k := Finished]"
    and h1: "history i1 = history i @ pending (ts ! k)"
    by auto
  from Cons.prems(2,3) ts1 have "distinct ks" "\<forall>k \<in> set ks. k < length ts1"
    by auto
  from Cons.IH [OF b this] have
    h: "history i' = history i1 @ concat (map (\<lambda>k. pending (ts1 ! k)) ks)"
    and l: "length ts' = length ts1"
    and f: "\<forall>j < length ts1. ts' ! j = (if j \<in> set ks then Finished else ts1 ! j)"
    by auto
  have "ts1 ! j = ts ! j" if "j \<in> set ks" for j
  proof -
    from that Cons.prems(2) have "j \<noteq> k" by auto
    then show ?thesis by (simp add: ts1)
  qed
  then have "map (\<lambda>k. pending (ts1 ! k)) ks = map (\<lambda>k. pending (ts ! k)) ks"
    by simp
  with h h1 have "history i' = history i @ concat (map (\<lambda>k. pending (ts ! k)) (k # ks))"
    by simp
  moreover from l ts1 have "length ts' = length ts" by simp
  moreover from f ts1 have "\<forall>j < length ts. ts' ! j = (if j \<in> set (k # ks) then Finished else ts ! j)"
    by (auto simp: nth_list_update)
  ultimately show ?case by blast
qed

lemma wait_schedule_one_by_one: "wait_schedule n = one_by_one [0 ..< n]"
  by (simp add: wait_schedule_def one_by_one_def)

lemma run_wait_finished:
  assumes "run (wait_schedule (length ts)) ts i = Inr (ts', i')"
  shows "length ts' = length ts \<and> (\<forall>t \<in> set ts'. t = Finished)"
proof -
  from assms have r: "run (one_by_one [0 ..< length ts]) ts i = Inr (ts', i')"
    by (simp add: wait_schedule_one_by_one)
  from run_one_by_one [OF r] have l: "length ts' = length ts"
    and f: "\<forall>k < length ts. ts' ! k = Finished"
    by auto
  from l f have "\<forall>t \<in> set ts'. t = Finished"
    by (auto simp: in_set_conv_nth)
  with l show ?thesis by simp
qed

lemma pending_all_update:
  "k < length ts \<Longrightarrow>
     pending_all (ts[k := t']) + mset (pending (ts ! k)) = pending_all ts + mset (pending t')"
proof (induction ts arbitrary: k)
  case Nil
  then show ?case by simp
next
  case (Cons t ts)
  show ?case
  proof (cases k)
    case 0
    then show ?thesis by (simp add: pending_all_def)
  next
    case (Suc j)
    with Cons.prems have "j < length ts" by simp
    from Cons.IH [OF this] Suc show ?thesis
      by (simp add: pending_all_def)
  qed
qed

lemma run_history:
  assumes "run sched ts i = Inr (ts', i')"
  shows "\<exists>evs. history i' = history i @ evs \<and> mset evs + pending_all ts' = pending_all ts"
proof -
  let ?I = "\<lambda>ts1 i1. \<exists>evs. history i1 = history i @ evs \<and> mset evs + pending_all ts1 = pending_all ts"
  have "?I ts' i'"
  proof (rule run_invariant [OF assms, where I = ?I])
    show "?I ts i" by simp
  next
    fix ts1 i1 k t2 i2
    assume inv: "?I ts1 i1" and k: "k < length ts1" and s: "step (ts1 ! k) i1 = Inr (t2, i2)"
    from inv obtain evs where h: "history i1 = history i @ evs"
      and m: "mset evs + pending_all ts1 = pending_all ts"
      by blast
    from step_pending [OF s] show "?I (ts1[k := t2]) i2"
    proof
      assume a: "t2 \<noteq> Finished \<and> pending t2 = pending (ts1 ! k) \<and> history i2 = history i1"
      with pending_all_update [OF k, of t2] have "pending_all (ts1[k := t2]) = pending_all ts1"
        by simp
      with a h m show ?thesis by auto
    next
      assume a: "t2 = Finished \<and> history i2 = history i1 @ pending (ts1 ! k)"
      with pending_all_update [OF k, of t2]
      have "pending_all (ts1[k := t2]) + mset (pending (ts1 ! k)) = pending_all ts1"
        by simp
      with m have "mset (evs @ pending (ts1 ! k)) + pending_all (ts1[k := t2]) = pending_all ts"
        by (metis add.assoc add.commute mset_append)
      with a h show ?thesis
        by (intro exI [of _ "evs @ pending (ts1 ! k)"]) simp
    qed
  qed
  then show ?thesis .
qed

lemma pending_all_finished: "\<forall>t \<in> set ts. t = Finished \<Longrightarrow> pending_all ts = {#}"
  by (induction ts) (auto simp: pending_all_def)

lemma goroutines_run:
  assumes "goroutines sched ts i = Inr i'"
  shows "\<exists>ts'. run (sched @ wait_schedule (length ts)) ts i = Inr (ts', i')
           \<and> length ts' = length ts \<and> (\<forall>t \<in> set ts'. t = Finished)"
proof -
  from assms obtain ts' where r: "run (sched @ wait_schedule (length ts)) ts i = Inr (ts', i')"
    by (auto simp: goroutines_def split: sum.splits prod.splits)
  then obtain ts1 i1 where a: "run sched ts i = Inr (ts1, i1)"
    and b: "run (wait_schedule (length ts)) ts1 i1 = Inr (ts', i')"
    unfolding run_append by (auto split: sum.splits prod.splits)
  from run_length [OF a] b have "run (wait_schedule (length ts1)) ts1 i1 = Inr (ts', i')"
    by simp
  from run_wait_finished [OF this] run_length [OF a] r show ?thesis
    by auto
qed

lemma goroutines_history:
  assumes "goroutines sched ts i = Inr i'"
  shows "\<exists>evs. history i' = history i @ evs \<and> mset evs = pending_all ts"
proof -
  from goroutines_run [OF assms] obtain ts' where
    r: "run (sched @ wait_schedule (length ts)) ts i = Inr (ts', i')"
    and f: "\<forall>t \<in> set ts'. t = Finished"
    by blast
  from run_history [OF r] pending_all_finished [OF f] show ?thesis
    by auto
qed

text \<open>
  A goroutine that runs alone, from its start to its end, does what the function it
  calls does when it is called on its own.
\<close>

lemma run_updateInverted_alone:
  "run [0, 0, 0] [GoUpdateInverted word pageId] i =
     (case updateInverted word pageId i of
        Inl p \<Rightarrow> Inl p
      | Inr i' \<Rightarrow> Inr ([Finished], logEvent (Staged word) i'))"
proof (cases "getId_View word WordToWordId i")
  case None
  obtain wordId i1 where b: "getId_Batch word WordToWordId WordIdToWord i = (wordId, i1)"
    by (cases "getId_Batch word WordToWordId WordIdToWord i")
  with None show ?thesis
    by (cases "updateInverted_locked wordId pageId i1")
      (simp_all add: updateInverted_def getOrCreateWordId_def getId_def)
next
  case (Some wordId)
  then show ?thesis
    by (cases "updateInverted_locked wordId pageId i")
      (simp_all add: updateInverted_def getOrCreateWordId_def getId_def)
qed

lemma run_updateForward_alone:
  "run [0, 0, 0] [GoUpdateForward word pageId tf] i =
     (case updateForward word pageId tf ForwardTable i of
        Inl p \<Rightarrow> Inl p
      | Inr i' \<Rightarrow> Inr ([Finished], logEvent (ForwardWritten word) i'))"
proof (cases "getId_View word WordToWordId i")
  case None
  obtain wordId i1 where b: "getId_Batch word WordToWordId WordIdToWord i = (wordId, i1)"
    by (cases "getId_Batch word WordToWordId WordIdToWord i")
  with None show ?thesis
    by (cases "updateForward_Batch wordId pageId tf ForwardTable i1")
      (simp_all add: updateForward_def getOrCreateWordId_def getId_def)
next
  case (Some wordId)
  then show ?thesis
    by (cases "updateForward_Batch wordId pageId tf ForwardTable i")
      (simp_all add: updateForward_def getOrCreateWordId_def getId_def)
qed

section \<open>FlushInverted\<close>

lemma PutUnchecked_dom:
  "length k = 8 \<Longrightarrow> dom (pairs (PutUnchecked k [1] b)) = insert k (dom (pairs b))"
  by (auto simp: PutUnchecked_def Put_def MaxKeySize_def MaxValueSize_def
      split: option.splits entry.splits)

lemma fold_Put_dom:
  "dom (pairs (fold (\<lambda>(docId, _). PutUnchecked (uint64ToByte docId) [1]) l b))
     = dom (pairs b) \<union> uint64ToByte ` fst ` set l"
proof (induction l arbitrary: b)
  case Nil
  then show ?case by simp
next
  case (Cons x l)
  obtain d v where x: "x = (d, v)" by (cases x)
  show ?case
    by (simp add: x Cons.IH PutUnchecked_dom length_uint64ToByte)
qed

lemma staged_keys:
  "{p. staged i w p} = (case tempInverted i w of None \<Rightarrow> {} | Some l \<Rightarrow> fst ` set l)"
  by (auto simp: staged_def split: option.splits)

lemma uint64ToByte_eq_iff [simp]: "uint64ToByte v = uint64ToByte w \<longleftrightarrow> v = w"
  using uint64ToByte_inj by auto

lemma uint64ToByte_not_Nil [simp]: "uint64ToByte v \<noteq> []"
  using length_uint64ToByte [of v] by auto

lemma staged_key_image:
  "uint64ToByte ` {p. staged i w p}
     = (case tempInverted i w of None \<Rightarrow> {} | Some l \<Rightarrow> uint64ToByte ` fst ` set l)"
  by (simp add: staged_keys split: option.splits)

lemma posting_other:
  "w' \<noteq> w \<Longrightarrow>
     posting (d(InvertedTable := Bucket ((pairs (d InvertedTable))(uint64ToByte w \<mapsto> e)) s)) w'
       = posting d w'"
  by (simp add: posting_def)

lemma posting_same:
  "posting (d(InvertedTable := Bucket ((pairs (d InvertedTable))(uint64ToByte w \<mapsto> Nested b)) s)) w
     = dom (pairs b)"
  by (simp add: posting_def)

lemma FlushInverted_Batch_cases:
  assumes "FlushInverted_Batch w i = Inr i'"
  defines "b \<equiv> fold (\<lambda>(docId, _). PutUnchecked (uint64ToByte docId) [1])
                  (case tempInverted i w of None \<Rightarrow> [] | Some l \<Rightarrow> l)
                  (case pairs (db i InvertedTable) (uint64ToByte w) of
                     Some (Nested c) \<Rightarrow> c | _ \<Rightarrow> emptyBucket)"
  shows "(\<exists>v. pairs (db i InvertedTable) (uint64ToByte w) = Some (Value v)
            \<and> {p. staged i w p} = {} \<and> i' = i)
       \<or> (posting (db i) w \<union> uint64ToByte ` {p. staged i w p} = dom (pairs b)
            \<and> i' = i\<lparr>db := (db i)(InvertedTable :=
                   Bucket ((pairs (db i InvertedTable))(uint64ToByte w \<mapsto> Nested b))
                     (sequence (db i InvertedTable)))\<rparr>)"
proof (cases "pairs (db i InvertedTable) (uint64ToByte w)")
  case None
  with assms(1) show ?thesis
    by (auto simp: b_def FlushInverted_Batch_def CreateBucketIfNotExists_def setNested_def Let_def
        posting_def fold_Put_dom staged_key_image emptyBucket_def split: option.splits)
next
  case (Some e)
  show ?thesis
  proof (cases e)
    case (Value v)
    with Some assms(1) show ?thesis
      by (auto simp: FlushInverted_Batch_def CreateBucketIfNotExists_def Let_def
          staged_keys split: option.splits if_splits)
  next
    case (Nested c)
    with Some assms(1) show ?thesis
      by (auto simp: b_def FlushInverted_Batch_def CreateBucketIfNotExists_def setNested_def Let_def
          posting_def fold_Put_dom staged_key_image split: option.splits)
  qed
qed

lemma FlushInverted_Batch_effect:
  assumes "FlushInverted_Batch w i = Inr i'"
  shows "tempInverted i' = tempInverted i \<and> wordIdList i' = wordIdList i
    \<and> history i' = history i
    \<and> (\<forall>t. t \<noteq> InvertedTable \<longrightarrow> db i' t = db i t)
    \<and> posting (db i') w = posting (db i) w \<union> uint64ToByte ` {p. staged i w p}
    \<and> (\<forall>w'. w' \<noteq> w \<longrightarrow> posting (db i') w' = posting (db i) w')
    \<and> (\<forall>k b. k \<noteq> uint64ToByte w \<longrightarrow> pairs (db i InvertedTable) k = Some (Nested b)
          \<longrightarrow> pairs (db i' InvertedTable) k = Some (Nested b))
    \<and> (sub_tables_only i \<longrightarrow> sub_tables_only i'
          \<and> (\<exists>b. pairs (db i' InvertedTable) (uint64ToByte w) = Some (Nested b)))"
proof -
  from FlushInverted_Batch_cases [OF assms] consider
    (val) "\<exists>v. pairs (db i InvertedTable) (uint64ToByte w) = Some (Value v)
            \<and> {p. staged i w p} = {} \<and> i' = i"
    | (nest) "\<exists>b. posting (db i) w \<union> uint64ToByte ` {p. staged i w p} = dom (pairs b)
            \<and> i' = i\<lparr>db := (db i)(InvertedTable :=
                   Bucket ((pairs (db i InvertedTable))(uint64ToByte w \<mapsto> Nested b))
                     (sequence (db i InvertedTable)))\<rparr>"
    by blast
  then show ?thesis
  proof cases
    case val
    then show ?thesis
      by (auto simp: sub_tables_only_def)
  next
    case nest
  then obtain b where d: "posting (db i) w \<union> uint64ToByte ` {p. staged i w p} = dom (pairs b)"
    and i': "i' = i\<lparr>db := (db i)(InvertedTable :=
                   Bucket ((pairs (db i InvertedTable))(uint64ToByte w \<mapsto> Nested b))
                     (sequence (db i InvertedTable)))\<rparr>"
    by blast
  have "posting (db i') w = dom (pairs b)"
    by (simp add: i' posting_same)
  moreover have "\<forall>w'. w' \<noteq> w \<longrightarrow> posting (db i') w' = posting (db i) w'"
    by (simp add: i' posting_other)
  moreover have "sub_tables_only i \<longrightarrow> sub_tables_only i'"
    by (simp add: i' sub_tables_only_def)
  ultimately show ?thesis
    using d by (simp add: i')
  qed
qed

lemma FlushInverted_Batch_total:
  "sub_tables_only i \<Longrightarrow> \<exists>i'. FlushInverted_Batch w i = Inr i'"
  by (cases "pairs (db i InvertedTable) (uint64ToByte w)")
    (auto simp: FlushInverted_Batch_def CreateBucketIfNotExists_def Let_def sub_tables_only_def
      split: entry.splits)

lemma staged_cong:
  "tempInverted i = tempInverted i0 \<Longrightarrow> staged i w p = staged i0 w p"
  by (simp add: staged_def)

lemma flush_run_append:
  "flush_run (s1 @ s2) f =
     (case flush_run s1 f of Inl p \<Rightarrow> Inl p | Inr f' \<Rightarrow> flush_run s2 f')"
  by (induction s1 arbitrary: f) (auto split: sum.splits)

lemma flush_run_invariant:
  assumes "flush_run sched f = Inr f'" and "I f"
    and "\<And>m g g'. I g \<Longrightarrow> flush_step m g = Inr g' \<Longrightarrow> I g'"
  shows "I f'"
  using assms(1,2)
proof (induction sched arbitrary: f)
  case Nil
  then show ?case by simp
next
  case (Cons m sched)
  from Cons.prems(1) obtain g where s: "flush_step m f = Inr g" and r: "flush_run sched g = Inr f'"
    by (auto split: sum.splits)
  from assms(3) [OF Cons.prems(2) s] have "I g" .
  with Cons.IH r show ?case by blast
qed

lemma flush_run_total:
  assumes "I f" and "\<And>m g. I g \<Longrightarrow> \<exists>g'. flush_step m g = Inr g' \<and> I g'"
  shows "\<exists>f'. flush_run sched f = Inr f' \<and> I f'"
  using assms(1)
proof (induction sched arbitrary: f)
  case Nil
  then show ?case by simp
next
  case (Cons m sched)
  from assms(2) [OF Cons.prems] obtain g where s: "flush_step m f = Inr g" and "I g"
    by blast
  with Cons.IH show ?case by simp
qed

lemma flush_run_drained:
  "flush_run (replicate n (RunFunction 0)) f = Inr f' \<Longrightarrow> length (notRun f) \<le> n
     \<Longrightarrow> notRun f' = []"
proof (induction n arbitrary: f)
  case 0
  then show ?case by simp
next
  case (Suc n)
  show ?case
  proof (cases "notRun f")
    case Nil
    with Suc.prems(1) have "flush_run (replicate n (RunFunction 0)) f = Inr f'"
      by simp
    with Suc.IH Nil show ?thesis by simp
  next
    case (Cons w ws)
    with Suc.prems(1) obtain g where s: "flush_step (RunFunction 0) f = Inr g"
      and r: "flush_run (replicate n (RunFunction 0)) g = Inr f'"
      by (auto split: sum.splits)
    from s Cons have "notRun g = ws"
      by (auto split: sum.splits)
    with Suc.prems(2) Cons have "length (notRun g) \<le> n" by simp
    with Suc.IH r show ?thesis by blast
  qed
qed

lemma set_without_nth:
  "k < length xs \<Longrightarrow> set xs = insert (xs ! k) (set (take k xs @ drop (Suc k) xs))"
proof -
  assume "k < length xs"
  then have "xs = take k xs @ xs ! k # drop (Suc k) xs"
    by (rule id_take_nth_drop)
  then have "set xs = set (take k xs @ xs ! k # drop (Suc k) xs)"
    by simp
  then show ?thesis by simp
qed

lemma txView_Some [simp]: "txView (f\<lparr>openTx := Some d, notRun := l\<rparr>) = d"
  by (simp add: txView_def)

lemma merge_state_refl: "merge_state i0 (db i0) w"
  by (simp add: merge_state_def)

lemma flush_inv_init:
  "flush_inv i ws \<lparr>indexer = i, openTx = None, notRun = ws\<rparr>"
  by (simp add: flush_inv_def txView_def merge_state_def)

lemma flush_inv_commit:
  assumes inv: "flush_inv i0 ws f" and s: "flush_step Commit f = Inr f'"
  shows "flush_inv i0 ws f'"
proof (cases "openTx f")
  case None
  with s inv show ?thesis by simp
next
  case (Some d)
  with s have f': "f' = f\<lparr>indexer := (indexer f)\<lparr>db := d\<rparr>, openTx := None\<rparr>"
    by simp
  from Some have v: "txView f = d" by (simp add: txView_def)
  have v': "txView f' = d" by (simp add: f' txView_def)
  have i': "indexer f' = (indexer f)\<lparr>db := d\<rparr>" "notRun f' = notRun f"
    by (simp_all add: f')
  from inv show ?thesis
    unfolding flush_inv_def v v' i' by simp
qed

lemma flush_inv_run:
  assumes inv: "flush_inv i0 ws f" and s: "flush_step (RunFunction k) f = Inr f'"
  shows "flush_inv i0 ws f'"
proof (cases "k < length (notRun f)")
  case False
  with s inv show ?thesis by simp
next
  case True
  define w where "w = notRun f ! k"
  define v where "v = (indexer f)\<lparr>db := txView f\<rparr>"
  let ?S = "\<lambda>u. uint64ToByte ` {p. staged i0 u p}"
  from s True obtain i' where b: "FlushInverted_Batch w v = Inr i'"
    and f': "f' = f\<lparr>openTx := Some (db i'),
                    notRun := take k (notRun f) @ drop (Suc k) (notRun f)\<rparr>"
    by (auto simp: w_def v_def split: sum.splits)
  note e = FlushInverted_Batch_effect [OF b]
  have dv: "db v = txView f" by (simp add: v_def)
  have sv: "staged v u p = staged i0 u p" for u p
    using inv by (simp add: v_def staged_def flush_inv_def)
  have v': "txView f' = db i'" by (simp add: f')
  have ix: "indexer f' = indexer f" by (simp add: f')
  have nr: "notRun f' = take k (notRun f) @ drop (Suc k) (notRun f)" by (simp add: f')
  from set_without_nth [OF True] have sn: "set (notRun f) = insert w (set (notRun f'))"
    by (simp add: nr w_def)
  have len: "length (notRun f') \<le> length (notRun f)"
    by (simp add: nr)
  from e have pw: "posting (db i') w = posting (txView f) w \<union> ?S w"
    by (simp add: dv sv)
  from e have po: "u \<noteq> w \<Longrightarrow> posting (db i') u = posting (txView f) u" for u
    by (simp add: dv)
  from e have ot: "t \<noteq> InvertedTable \<Longrightarrow> db i' t = txView f t" for t
    by (simp add: dv)
  from inv have ms: "merge_state i0 (txView f) u" for u
    by (simp add: flush_inv_def)
  from ms [of w] pw have pw': "posting (db i') w = posting (db i0) w \<union> ?S w"
    by (auto simp: merge_state_def)
  have wws: "w \<in> set ws"
    using inv sn by (auto simp: flush_inv_def)
  have c1: "set (notRun f') \<subseteq> set ws \<and> length (notRun f') \<le> length ws"
    using inv sn len by (auto simp: flush_inv_def)
  have c2: "tempInverted (indexer f') = tempInverted i0 \<and> wordIdList (indexer f') = wordIdList i0
      \<and> history (indexer f') = history i0"
    using inv by (simp add: ix flush_inv_def)
  have c3: "\<forall>t. t \<noteq> InvertedTable \<longrightarrow> db (indexer f') t = db i0 t \<and> txView f' t = db i0 t"
    using inv ot by (simp add: ix v' flush_inv_def)
  have c4: "\<forall>u. merge_state i0 (db (indexer f')) u \<and> merge_state i0 (txView f') u"
  proof (intro allI conjI)
    fix u
    from inv show "merge_state i0 (db (indexer f')) u"
      by (simp add: ix flush_inv_def)
    show "merge_state i0 (txView f') u"
    proof (cases "u = w")
      case True
      with pw' show ?thesis by (simp add: v' merge_state_def)
    next
      case False
      with po ms [of u] show ?thesis by (simp add: v' merge_state_def)
    qed
  qed
  have c5: "\<forall>u. u \<notin> set ws \<longrightarrow>
             posting (db (indexer f')) u = posting (db i0) u
             \<and> posting (txView f') u = posting (db i0) u"
  proof (intro allI impI)
    fix u
    assume u: "u \<notin> set ws"
    with wws have "u \<noteq> w" by blast
    with po have "posting (db i') u = posting (txView f) u" by simp
    with inv u show "posting (db (indexer f')) u = posting (db i0) u
             \<and> posting (txView f') u = posting (db i0) u"
      by (simp add: ix v' flush_inv_def)
  qed
  have c6: "\<forall>u \<in> set ws. u \<notin> set (notRun f') \<longrightarrow>
             posting (txView f') u = posting (db i0) u \<union> ?S u"
  proof (intro ballI impI)
    fix u
    assume u: "u \<in> set ws" "u \<notin> set (notRun f')"
    show "posting (txView f') u = posting (db i0) u \<union> ?S u"
    proof (cases "u = w")
      case True
      with pw' show ?thesis by (simp add: v')
    next
      case False
      with u sn have "u \<notin> set (notRun f)" by simp
      with inv u(1) have "posting (txView f) u = posting (db i0) u \<union> ?S u"
        by (simp add: flush_inv_def)
      with po False show ?thesis by (simp add: v')
    qed
  qed
  have c7: "sub_tables_only i0 \<longrightarrow>
            sub_tables_only (indexer f') \<and> sub_tables_only ((indexer f')\<lparr>db := txView f'\<rparr>)
            \<and> (\<forall>u \<in> set ws. u \<notin> set (notRun f') \<longrightarrow>
                  (\<exists>b. pairs (txView f' InvertedTable) (uint64ToByte u) = Some (Nested b)))"
  proof (intro impI conjI ballI)
    assume so: "sub_tables_only i0"
    with inv have a: "sub_tables_only (indexer f)" and b: "sub_tables_only v"
      by (simp_all add: flush_inv_def v_def)
    from a show "sub_tables_only (indexer f')" by (simp add: ix)
    from e b have c: "sub_tables_only i'"
      and d: "\<exists>b. pairs (db i' InvertedTable) (uint64ToByte w) = Some (Nested b)"
      by simp_all
    from c show "sub_tables_only ((indexer f')\<lparr>db := txView f'\<rparr>)"
      by (simp add: v' sub_tables_only_def)
    fix u
    assume u: "u \<in> set ws" "u \<notin> set (notRun f')"
    show "\<exists>b. pairs (txView f' InvertedTable) (uint64ToByte u) = Some (Nested b)"
    proof (cases "u = w")
      case True
      with d show ?thesis by (simp add: v')
    next
      case False
      with u sn have "u \<notin> set (notRun f)" by simp
      with inv u(1) so obtain c where
        "pairs (txView f InvertedTable) (uint64ToByte u) = Some (Nested c)"
        by (auto simp: flush_inv_def)
      with e False show ?thesis by (simp add: v' dv)
    qed
  qed
  show ?thesis
    unfolding flush_inv_def using c1 c2 c3 c4 c5 c6 c7 by blast
qed

lemma flush_inv_step:
  "flush_inv i0 ws f \<Longrightarrow> flush_step m f = Inr f' \<Longrightarrow> flush_inv i0 ws f'"
  by (cases m) (auto intro: flush_inv_run flush_inv_commit)

lemma flush_inv_total:
  assumes "flush_inv i0 ws f" and "sub_tables_only i0"
  shows "\<exists>f'. flush_step m f = Inr f' \<and> flush_inv i0 ws f'"
proof -
  from assms have so: "sub_tables_only ((indexer f)\<lparr>db := txView f\<rparr>)"
    by (simp add: flush_inv_def)
  have "\<exists>f'. flush_step m f = Inr f'"
  proof (cases m)
    case (RunFunction k)
    from FlushInverted_Batch_total [OF so, of "notRun f ! k"] RunFunction show ?thesis
      by auto
  next
    case Commit
    then show ?thesis by (cases "openTx f") auto
  qed
  with flush_inv_step [OF assms(1)] show ?thesis by blast
qed

lemma db_committed: "db (committed (i, tx)) = (case tx of None \<Rightarrow> db i | Some d \<Rightarrow> d)"
  by (simp add: committed_def split: option.splits)

lemma staging_committed [simp]:
  "tempInverted (committed r) = tempInverted (fst r)"
  "wordIdList (committed r) = wordIdList (fst r)"
  "history (committed r) = history (fst r)"
  by (simp_all add: committed_def split: option.splits)

lemma staged_committed [simp]: "staged (committed r) w q = staged (fst r) w q"
  by (simp add: staged_def)

lemma staged_wordIdList [simp]: "staged (i\<lparr>wordIdList := l\<rparr>) = staged i"
  by (simp add: staged_def fun_eq_iff)

text \<open>
  A flush ends in a state of the invariant in which every function has run.
\<close>

lemma FlushInverted_run:
  assumes "FlushInverted sched i = Inr r"
  shows "\<exists>f. r = (indexer f, openTx f) \<and> db (committed r) = txView f \<and> notRun f = []
    \<and> flush_inv (i\<lparr>wordIdList := sort (wordIdList i)\<rparr>) (sort (wordIdList i)) f"
proof -
  let ?ws = "sort (wordIdList i)"
  let ?i0 = "i\<lparr>wordIdList := ?ws\<rparr>"
  let ?f0 = "\<lparr>indexer = ?i0, openTx = None, notRun = ?ws\<rparr>"
  from assms obtain f where
    run: "flush_run (sched @ replicate (length ?ws) (RunFunction 0)) ?f0 = Inr f"
    and r: "r = (indexer f, openTx f)"
    by (auto simp: FlushInverted_def Let_def split: sum.splits)
  from run obtain f1 where r1: "flush_run sched ?f0 = Inr f1"
    and r2: "flush_run (replicate (length ?ws) (RunFunction 0)) f1 = Inr f"
    by (auto simp: flush_run_append split: sum.splits)
  have i1: "flush_inv ?i0 ?ws f1"
    by (rule flush_run_invariant [OF r1, where I = "flush_inv ?i0 ?ws"])
      (rule flush_inv_init, rule flush_inv_step)
  have i2: "flush_inv ?i0 ?ws f"
    by (rule flush_run_invariant [OF r2, where I = "flush_inv ?i0 ?ws"])
      (rule i1, rule flush_inv_step)
  from i1 have "length (notRun f1) \<le> length ?ws"
    by (simp add: flush_inv_def)
  from flush_run_drained [OF r2 this] have n: "notRun f = []" .
  have "db (committed r) = txView f"
    by (simp add: r db_committed txView_def)
  with r n i2 show ?thesis by blast
qed

lemma FlushInverted_staging:
  assumes "FlushInverted sched i = Inr r"
  shows "tempInverted (fst r) = tempInverted i" and "wordIdList (fst r) = sort (wordIdList i)"
    and "history (fst r) = history i"
proof -
  from FlushInverted_run [OF assms] obtain f where r: "r = (indexer f, openTx f)"
    and inv: "flush_inv (i\<lparr>wordIdList := sort (wordIdList i)\<rparr>) (sort (wordIdList i)) f"
    by blast
  from inv show "tempInverted (fst r) = tempInverted i"
    "wordIdList (fst r) = sort (wordIdList i)" "history (fst r) = history i"
    by (simp_all add: r flush_inv_def)
qed

lemma FlushInverted_other_tables:
  assumes "FlushInverted sched i = Inr r" and "t \<noteq> InvertedTable"
  shows "db (fst r) t = db i t" and "db (committed r) t = db i t"
proof -
  from FlushInverted_run [OF assms(1)] obtain f where r: "r = (indexer f, openTx f)"
    and c: "db (committed r) = txView f"
    and inv: "flush_inv (i\<lparr>wordIdList := sort (wordIdList i)\<rparr>) (sort (wordIdList i)) f"
    by blast
  from inv assms(2) have "db (indexer f) t = db i t" and "txView f t = db i t"
    by (simp_all add: flush_inv_def)
  then show "db (fst r) t = db i t" "db (committed r) t = db i t"
    unfolding c by (simp_all add: r)
qed

text \<open>
  Once the transactions of the flush are committed, the posting list of a staged
  word id holds what it held before and the pages staged for it.
\<close>

lemma FlushInverted_posting:
  assumes "FlushInverted sched i = Inr r"
  shows "posting (db (committed r)) w =
       (if w \<in> set (wordIdList i)
        then posting (db i) w \<union> uint64ToByte ` {p. staged i w p} else posting (db i) w)"
proof -
  from FlushInverted_run [OF assms(1)] obtain f where r: "r = (indexer f, openTx f)"
    and c: "db (committed r) = txView f" and n: "notRun f = []"
    and inv: "flush_inv (i\<lparr>wordIdList := sort (wordIdList i)\<rparr>) (sort (wordIdList i)) f"
    by blast
  from inv n show ?thesis
    unfolding c by (simp add: flush_inv_def)
qed

text \<open>
  When \<^verbatim>\<open>FlushInverted\<close> returns, the posting list of a word id in the database is
  the one from before the flush, with or without the pages staged for the word.
\<close>

lemma FlushInverted_at_return:
  assumes "FlushInverted sched i = Inr r"
  shows "posting (db (fst r)) w = posting (db i) w
    \<or> (w \<in> set (wordIdList i)
         \<and> posting (db (fst r)) w = posting (db i) w \<union> uint64ToByte ` {p. staged i w p})"
proof -
  from FlushInverted_run [OF assms(1)] obtain f where r: "r = (indexer f, openTx f)"
    and inv: "flush_inv (i\<lparr>wordIdList := sort (wordIdList i)\<rparr>) (sort (wordIdList i)) f"
    by blast
  from inv have "merge_state (i\<lparr>wordIdList := sort (wordIdList i)\<rparr>) (db (indexer f)) w"
    and "w \<notin> set (wordIdList i) \<longrightarrow> posting (db (indexer f)) w = posting (db i) w"
    by (simp_all add: flush_inv_def)
  then show ?thesis
    by (auto simp: r merge_state_def)
qed

lemma FlushInverted_sub_tables:
  assumes "FlushInverted sched i = Inr r" and "sub_tables_only i"
  shows "sub_tables_only (fst r)" and "sub_tables_only (committed r)"
    and "w \<in> set (wordIdList i) \<Longrightarrow>
           \<exists>b. pairs (db (committed r) InvertedTable) (uint64ToByte w) = Some (Nested b)"
proof -
  from FlushInverted_run [OF assms(1)] obtain f where r: "r = (indexer f, openTx f)"
    and c: "db (committed r) = txView f" and n: "notRun f = []"
    and inv: "flush_inv (i\<lparr>wordIdList := sort (wordIdList i)\<rparr>) (sort (wordIdList i)) f"
    by blast
  from assms(2) have so: "sub_tables_only (i\<lparr>wordIdList := sort (wordIdList i)\<rparr>)"
    by (simp add: sub_tables_only_def)
  from inv so show "sub_tables_only (fst r)"
    by (simp add: r flush_inv_def)
  from inv so have "sub_tables_only ((indexer f)\<lparr>db := txView f\<rparr>)"
    by (simp add: flush_inv_def)
  then show "sub_tables_only (committed r)"
    by (simp add: sub_tables_only_def c)
  assume "w \<in> set (wordIdList i)"
  with inv so n show "\<exists>b. pairs (db (committed r) InvertedTable) (uint64ToByte w) = Some (Nested b)"
    unfolding c by (simp add: flush_inv_def)
qed

lemma FlushInverted_total:
  assumes "sub_tables_only i"
  shows "\<exists>r. FlushInverted sched i = Inr r"
proof -
  let ?ws = "sort (wordIdList i)"
  let ?i0 = "i\<lparr>wordIdList := ?ws\<rparr>"
  let ?f0 = "\<lparr>indexer = ?i0, openTx = None, notRun = ?ws\<rparr>"
  from assms have so: "sub_tables_only ?i0"
    by (simp add: sub_tables_only_def)
  have "\<exists>f. flush_run (sched @ replicate (length ?ws) (RunFunction 0)) ?f0 = Inr f
           \<and> flush_inv ?i0 ?ws f"
    by (rule flush_run_total [where I = "flush_inv ?i0 ?ws"])
      (rule flush_inv_init, rule flush_inv_total [OF _ so])
  then show ?thesis
    by (auto simp: FlushInverted_def Let_def)
qed

text \<open>
  C2, as amended. When the inverted index holds sub-tables only, \<^verbatim>\<open>FlushInverted\<close>
  returns under every schedule. It sorts the staged word ids into ascending order and
  starts one goroutine per word id in that order. Once the transactions of these
  goroutines are committed, every staged word id has its sub-table, and the keys of
  that sub-table are the keys it had before together with all the pages staged for
  the word; sub-tables of other word ids keep their keys. Nothing is removed: the
  posting list is exactly the staged set only when it was empty or absent before, or
  held staged pages only.
\<close>

theorem FlushInverted_merges:
  assumes "sub_tables_only i"
  shows "\<exists>r. FlushInverted sched i = Inr r
    \<and> wordIdList (fst r) = sort (wordIdList i) \<and> tempInverted (fst r) = tempInverted i
    \<and> (\<forall>w \<in> set (wordIdList i).
          (\<exists>b. pairs (db (committed r) InvertedTable) (uint64ToByte w) = Some (Nested b))
          \<and> posting (db (committed r)) w
              = posting (db i) w \<union> uint64ToByte ` {p. staged i w p})
    \<and> (\<forall>w. w \<notin> set (wordIdList i) \<longrightarrow> posting (db (committed r)) w = posting (db i) w)"
proof -
  from FlushInverted_total [OF assms] obtain r where r: "FlushInverted sched i = Inr r"
    by blast
  from FlushInverted_staging [OF r] FlushInverted_sub_tables(3) [OF r assms]
    FlushInverted_posting [OF r] r
  show ?thesis
    by auto
qed

text \<open>
  A flush keeps the staging as it is, but for the order of the word ids.
\<close>

lemma FlushInverted_keeps_staging:
  assumes "FlushInverted sched i = Inr r"
    and "distinct (wordIdList i)" and "set (wordIdList i) = dom (tempInverted i)"
  shows "distinct (wordIdList (fst r)) \<and> set (wordIdList (fst r)) = dom (tempInverted (fst r))"
  using FlushInverted_staging(1,2) [OF assms(1)] assms(2,3) by simp

section \<open>getId\<close>

lemma unat_next: "(s :: 64 word) \<noteq> - 1 \<Longrightarrow> unat (s + 1) = Suc (unat s)"
  by (metis add.commute add_diff_cancel_left' diff_0 unatSuc)

lemma Get_Put_same:
  "k \<noteq> [] \<Longrightarrow> length k \<le> MaxKeySize \<Longrightarrow> length v \<le> MaxValueSize \<Longrightarrow> plain_values b
     \<Longrightarrow> Get (PutUnchecked k v b) k = Some v"
  by (auto simp: PutUnchecked_def Put_def Get_def plain_values_def split: option.splits entry.splits)

lemma Get_Put_other: "k' \<noteq> k \<Longrightarrow> Get (PutUnchecked k v b) k' = Get b k'"
  by (auto simp: PutUnchecked_def Put_def Get_def split: option.splits entry.splits)

lemma Get_Put_cases: "Get (PutUnchecked k v b) k' = Some r \<Longrightarrow> Get b k' = Some r \<or> (k' = k \<and> r = v)"
  by (auto simp: PutUnchecked_def Put_def Get_def split: option.splits entry.splits if_splits)

lemma plain_values_Put: "plain_values b \<Longrightarrow> plain_values (PutUnchecked k v b)"
  by (auto simp: PutUnchecked_def Put_def plain_values_def split: option.splits entry.splits)

lemma sequence_Put: "sequence (PutUnchecked k v b) = sequence b"
  by (auto simp: PutUnchecked_def Put_def split: option.splits entry.splits)

lemma Get_Bucket: "Get (Bucket (pairs b) s) k = Get b k"
  by (simp add: Get_def)

lemma plain_values_Bucket: "plain_values (Bucket (pairs b) s) = plain_values b"
  by (simp add: plain_values_def)

lemma getId_Batch_db:
  assumes "fwT \<noteq> invT"
  shows "getId_Batch text fwT invT i =
     (uint64ToByte (sequence (db i fwT) + 1),
      i\<lparr>db := (db i)
         (fwT := PutUnchecked (toBytes text) (uint64ToByte (sequence (db i fwT) + 1))
                   (Bucket (pairs (db i fwT)) (sequence (db i fwT) + 1)),
          invT := PutUnchecked (uint64ToByte (sequence (db i fwT) + 1)) (toBytes text)
                   (db i invT))\<rparr>)"
  using assms by (simp add: getId_Batch_def NextSequence_def Let_def)

lemma ids_consistent_init: "fwT \<noteq> invT \<Longrightarrow> ids_consistent fwT invT (LoadIndexer emptyDb)"
  by (simp add: ids_consistent_def plain_values_def LoadIndexer_def emptyDb_def emptyBucket_def
      Get_def)

lemma ids_consistent_Batch:
  assumes ne: "fwT \<noteq> invT" and inv: "ids_consistent fwT invT i"
    and seq: "sequence (db i fwT) \<noteq> - 1"
    and fresh: "Get (db i fwT) (toBytes text) = None"
    and g: "getId_Batch text fwT invT i = (r, i')"
  shows "ids_consistent fwT invT i'
    \<and> r = uint64ToByte (sequence (db i fwT) + 1)
    \<and> (\<forall>key r'. key \<noteq> toBytes text \<longrightarrow> Get (db i' fwT) key = Some r' \<longrightarrow> r' \<noteq> r)
    \<and> (0 < length text \<and> length text \<le> MaxKeySize \<longrightarrow>
          Get (db i' fwT) (toBytes text) = Some r \<and> Get (db i' invT) r = Some (toBytes text))"
proof -
  let ?s = "sequence (db i fwT) + 1"
  let ?r = "uint64ToByte ?s"
  let ?fw = "PutUnchecked (toBytes text) ?r (Bucket (pairs (db i fwT)) ?s)"
  let ?inv = "PutUnchecked ?r (toBytes text) (db i invT)"
  from g ne have r: "r = ?r" and i': "i' = i\<lparr>db := (db i)(fwT := ?fw, invT := ?inv)\<rparr>"
    by (auto simp: getId_Batch_db)
  from ne have dfw: "db i' fwT = ?fw" and dinv: "db i' invT = ?inv"
    by (simp_all add: i')
  from inv have pf: "plain_values (db i fwT)" and pi: "plain_values (db i invT)"
    by (simp_all add: ids_consistent_def)
  from seq have us: "unat ?s = Suc (unat (sequence (db i fwT)))"
    by (rule unat_next)
  have old: "\<exists>n. r0 = uint64ToByte n \<and> 0 < unat n \<and> unat n \<le> unat (sequence (db i fwT))"
      "Get (db i invT) r0 = Some key"
    if "Get (db i fwT) key = Some r0" for key r0
    using inv that by (auto simp: ids_consistent_def)
  have old_ne: "r0 \<noteq> ?r" if "Get (db i fwT) key = Some r0" for key r0
  proof -
    from old(1) [OF that] obtain n where "r0 = uint64ToByte n" "unat n \<le> unat (sequence (db i fwT))"
      by blast
    with us have "n \<noteq> ?s" by auto
    with \<open>r0 = uint64ToByte n\<close> show ?thesis
      using uint64ToByte_inj by blast
  qed
  have entry: "(\<exists>n. r0 = uint64ToByte n \<and> 0 < unat n \<and> unat n \<le> unat (sequence (db i' fwT)))
       \<and> Get (db i' invT) r0 = Some key"
    if a: "Get (db i' fwT) key = Some r0" for key r0
  proof -
    from a have "Get ?fw key = Some r0"
      by (simp add: dfw)
    from Get_Put_cases [OF this]
    have "Get (db i fwT) key = Some r0 \<or> (key = toBytes text \<and> r0 = ?r)"
      by (simp add: Get_Bucket)
    then show ?thesis
    proof
      assume o: "Get (db i fwT) key = Some r0"
      from old(1) [OF o] us have "\<exists>n. r0 = uint64ToByte n \<and> 0 < unat n \<and> unat n \<le> unat (sequence (db i' fwT))"
        by (auto simp: dfw sequence_Put)
      moreover from old_ne [OF o] old(2) [OF o] have "Get (db i' invT) r0 = Some key"
        by (simp add: dinv Get_Put_other)
      ultimately show ?thesis by simp
    next
      assume n: "key = toBytes text \<and> r0 = ?r"
      with a fresh have put: "Get ?fw (toBytes text) \<noteq> Get (Bucket (pairs (db i fwT)) ?s) (toBytes text)"
        by (simp add: dfw Get_Bucket)
      then have ok: "toBytes text \<noteq> [] \<and> length (toBytes text) \<le> MaxKeySize"
        by (auto simp: PutUnchecked_def Put_def split: if_splits)
      then have "length (toBytes text) \<le> MaxValueSize"
        by (simp add: MaxKeySize_def MaxValueSize_def)
      with pi have "Get ?inv ?r = Some (toBytes text)"
        by (intro Get_Put_same) (simp_all add: length_uint64ToByte MaxKeySize_def)
      moreover from us have "0 < unat ?s \<and> unat ?s \<le> unat (sequence (db i' fwT))"
        by (simp add: dfw sequence_Put)
      ultimately show ?thesis
        using n by (auto simp: dinv)
    qed
  qed
  have c1: "ids_consistent fwT invT i'"
    unfolding ids_consistent_def
    using entry pf pi by (auto simp: dfw dinv plain_values_Put plain_values_Bucket)
  have c3: "\<forall>key r'. key \<noteq> toBytes text \<longrightarrow> Get (db i' fwT) key = Some r' \<longrightarrow> r' \<noteq> r"
    using old_ne by (auto simp: dfw r Get_Put_other Get_Bucket)
  have c4: "Get (db i' fwT) (toBytes text) = Some r \<and> Get (db i' invT) r = Some (toBytes text)"
    if "0 < length text" "length text \<le> MaxKeySize"
  proof -
    from that have "toBytes text \<noteq> []" "length (toBytes text) \<le> MaxKeySize"
      by (auto simp: toBytes_def)
    moreover from pf have "plain_values (Bucket (pairs (db i fwT)) ?s)"
      by (simp add: plain_values_Bucket)
    ultimately have "Get ?fw (toBytes text) = Some ?r"
      by (intro Get_Put_same) (simp_all add: length_uint64ToByte MaxValueSize_def)
    with entry [of "toBytes text" ?r] show ?thesis
      by (simp add: dfw r)
  qed
  from c1 r c3 c4 show ?thesis by blast
qed

text \<open>
  C4, as amended. Take a pair of mapping tables that hold what \<^verbatim>\<open>getId\<close> has written
  (\<open>ids_consistent\<close>, true of the empty database and kept by every call) and whose
  sequence counter has not reached the largest \<^verbatim>\<open>uint64\<close>. After \<^verbatim>\<open>getId t\<close> has
  returned the id \<open>r\<close>, no other text has the id \<open>r\<close>; and when \<open>t\<close> has between 1 and
  32768 bytes, the sizes of a key that the store accepts, a second \<^verbatim>\<open>getId t\<close> returns
  \<open>r\<close> again and changes nothing, and the inverse table resolves \<open>r\<close> to exactly \<open>t\<close>.
  The calls run one after the other.
\<close>

theorem getId_bijective:
  assumes "fwT \<noteq> invT" and "ids_consistent fwT invT i" and "sequence (db i fwT) \<noteq> - 1"
    and "getId t fwT invT i = (r, i')"
  shows "ids_consistent fwT invT i'
    \<and> (\<forall>key r'. key \<noteq> toBytes t \<longrightarrow> Get (db i' fwT) key = Some r' \<longrightarrow> r' \<noteq> r)
    \<and> (0 < length t \<and> length t \<le> MaxKeySize \<longrightarrow>
          getId t fwT invT i' = (r, i')
          \<and> Get (db i' fwT) (toBytes t) = Some r
          \<and> Get (db i' invT) r = Some (toBytes t))"
proof (cases "Get (db i fwT) (toBytes t)")
  case None
  with assms(4) have b: "getId_Batch t fwT invT i = (r, i')"
    by (simp add: getId_def getId_View_def)
  from ids_consistent_Batch [OF assms(1,2,3) None b] show ?thesis
    by (auto simp: getId_def getId_View_def)
next
  case (Some r0)
  with assms(4) have r: "r = r0" and i': "i' = i"
    by (simp_all add: getId_def getId_View_def)
  from assms(2) Some have inverse: "Get (db i invT) r0 = Some (toBytes t)"
    by (simp add: ids_consistent_def)
  have "r' \<noteq> r0" if "key \<noteq> toBytes t" "Get (db i fwT) key = Some r'" for key r'
  proof
    assume "r' = r0"
    with assms(2) that(2) have "Get (db i invT) r0 = Some key"
      by (simp add: ids_consistent_def)
    with inverse that(1) show False by simp
  qed
  with assms(2,4) Some inverse show ?thesis
    by (auto simp: r i')
qed

theorem getId_bijective_witness:
  "getId ''quick'' WordToWordId WordIdToWord
       (snd (getId ''quick'' WordToWordId WordIdToWord (LoadIndexer emptyDb)))
     = getId ''quick'' WordToWordId WordIdToWord (LoadIndexer emptyDb)
   \<and> Get (db (snd (getId ''quick'' WordToWordId WordIdToWord (LoadIndexer emptyDb))) WordIdToWord)
        (fst (getId ''quick'' WordToWordId WordIdToWord (LoadIndexer emptyDb)))
     = Some (toBytes ''quick'')"
proof -
  have ne: "WordToWordId \<noteq> WordIdToWord"
    by simp
  have s: "sequence (db (LoadIndexer emptyDb) WordToWordId) \<noteq> - 1"
    by (simp add: LoadIndexer_def emptyDb_def emptyBucket_def)
  have v: "0 < length ''quick'' \<and> length ''quick'' \<le> MaxKeySize"
    by (simp add: MaxKeySize_def)
  from getId_bijective [OF ne ids_consistent_init [OF ne] s prod.collapse [symmetric]] v show ?thesis
    by simp
qed

text \<open>
  C4, as stated, fails for the empty text: the store refuses the blank key, the code
  drops the error, and the second call allocates id 2 where the first returned id 1.
\<close>

theorem getId_empty_text:
  "fst (getId '''' WordToWordId WordIdToWord (LoadIndexer emptyDb)) = uint64ToByte 1
   \<and> fst (getId '''' WordToWordId WordIdToWord
            (snd (getId '''' WordToWordId WordIdToWord (LoadIndexer emptyDb))))
       = uint64ToByte 2"
  by (simp add: getId_def getId_View_def getId_Batch_def NextSequence_def PutUnchecked_def
      Put_def Get_def LoadIndexer_def emptyDb_def emptyBucket_def toBytes_def Let_def
      length_uint64ToByte MaxKeySize_def MaxValueSize_def)

section \<open>UpdateOrAddPage\<close>

lemma ingest_rel_refl: "ingest_rel pg i i"
  by (simp add: ingest_rel_def)

lemma ingest_rel_tables:
  "ingest_rel pg i i' \<Longrightarrow>
     db i' InvertedTable = db i InvertedTable \<and> db i' UrlToPageId = db i UrlToPageId
     \<and> db i' PageIdToUrl = db i PageIdToUrl \<and> db i' PageInfo = db i PageInfo"
  by (simp add: ingest_rel_def)

lemma ingest_rel_staged:
  "ingest_rel pg i i' \<Longrightarrow> staged i' w q \<Longrightarrow> staged i w q \<or> byteToUint64 pg = Inr q"
  by (simp add: ingest_rel_def)

lemma ingest_rel_staged_mono: "ingest_rel pg i i' \<Longrightarrow> staged i w q \<Longrightarrow> staged i' w q"
  by (simp add: ingest_rel_def)

lemma ingest_rel_staging:
  "ingest_rel pg i i' \<Longrightarrow> set (wordIdList i) = dom (tempInverted i)
     \<Longrightarrow> set (wordIdList i') = dom (tempInverted i')"
  by (simp add: ingest_rel_def)

lemma ingest_rel_forward_other:
  "ingest_rel pg i i' \<Longrightarrow> k \<noteq> pg \<Longrightarrow> pairs (db i' ForwardTable) k = pairs (db i ForwardTable) k"
  by (simp add: ingest_rel_def)

lemma ingest_rel_no_value:
  "ingest_rel pg i i' \<Longrightarrow> \<forall>v. pairs (db i ForwardTable) pg \<noteq> Some (Value v)
     \<Longrightarrow> pairs (db i' ForwardTable) pg \<noteq> Some (Value v)"
  by (simp add: ingest_rel_def)

lemma ingest_rel_nested:
  "ingest_rel pg i i' \<Longrightarrow> \<exists>b. pairs (db i ForwardTable) pg = Some (Nested b)
     \<Longrightarrow> \<exists>b. pairs (db i' ForwardTable) pg = Some (Nested b)"
  by (simp add: ingest_rel_def)

lemma ingest_rel_trans:
  assumes a: "ingest_rel pg i j" and b: "ingest_rel pg j k"
  shows "ingest_rel pg i k"
proof -
  have "staged i w q \<or> byteToUint64 pg = Inr q" if "staged k w q" for w q
    using ingest_rel_staged [OF b that] ingest_rel_staged [OF a] by blast
  moreover have "staged k w q" if "staged i w q" for w q
    using ingest_rel_staged_mono [OF b] ingest_rel_staged_mono [OF a that] by blast
  moreover have "set (wordIdList k) = dom (tempInverted k)"
    if "set (wordIdList i) = dom (tempInverted i)"
    using ingest_rel_staging [OF b] ingest_rel_staging [OF a that] by blast
  moreover have "pairs (db k ForwardTable) x = pairs (db i ForwardTable) x" if "x \<noteq> pg" for x
    using ingest_rel_forward_other [OF b that] ingest_rel_forward_other [OF a that] by simp
  moreover have "pairs (db k ForwardTable) pg \<noteq> Some (Value v)"
    if "\<forall>v. pairs (db i ForwardTable) pg \<noteq> Some (Value v)" for v
  proof -
    from ingest_rel_no_value [OF a that] have "\<forall>v. pairs (db j ForwardTable) pg \<noteq> Some (Value v)"
      by blast
    from ingest_rel_no_value [OF b this] show ?thesis .
  qed
  moreover have "\<exists>c. pairs (db k ForwardTable) pg = Some (Nested c)"
    if "\<exists>c. pairs (db i ForwardTable) pg = Some (Nested c)"
    using ingest_rel_nested [OF b ingest_rel_nested [OF a that]] .
  ultimately show ?thesis
    unfolding ingest_rel_def
    using ingest_rel_tables [OF a] ingest_rel_tables [OF b] by simp
qed

lemma staged_db_update [simp]: "staged (i\<lparr>db := d\<rparr>) w q = staged i w q"
  by (simp add: staged_def)

lemma staged_logEvent [simp]: "staged (logEvent e i) w q = staged i w q"
  by (simp add: staged_def logEvent_def)

lemma db_logEvent [simp]: "db (logEvent e i) = db i"
  by (simp add: logEvent_def)

lemma staging_logEvent [simp]:
  "tempInverted (logEvent e i) = tempInverted i" "wordIdList (logEvent e i) = wordIdList i"
  by (simp_all add: logEvent_def)

lemma getId_Batch_words_rel:
  assumes "getId_Batch word WordToWordId WordIdToWord i = (r, i')"
  shows "ingest_rel pg i i'"
  using assms
  by (auto simp: getId_Batch_def NextSequence_def Let_def ingest_rel_def)

lemma fst_set_update: "fst ` set (AList.update k v l) = insert k (fst ` set l)"
  by (induction l) auto

lemma updateInverted_locked_rel:
  assumes "updateInverted_locked wordId pg i = Inr i'"
  shows "ingest_rel pg i i'"
proof -
  from assms obtain w q where w: "byteToUint64 wordId = Inr w" and q: "byteToUint64 pg = Inr q"
    by (auto simp: updateInverted_locked_def split: sum.splits)
  from assms w q have ti: "tempInverted i' =
      (tempInverted i)(w \<mapsto> AList.update q True
         (case tempInverted i w of None \<Rightarrow> [] | Some l \<Rightarrow> l))"
    by (auto simp: updateInverted_locked_def Let_def split: option.splits)
  have st: "staged i' w' q' \<longleftrightarrow> staged i w' q' \<or> (w' = w \<and> q' = q)" for w' q'
  proof (cases "w' = w")
    case True
    then show ?thesis
      by (cases "tempInverted i w") (auto simp: staged_def ti fst_set_update)
  next
    case False
    then show ?thesis
      by (simp add: staged_def ti)
  qed
  from assms have d: "db i' = db i"
    by (auto simp: updateInverted_locked_def Let_def split: sum.splits option.splits)
  from assms have inv: "set (wordIdList i) = dom (tempInverted i)
      \<Longrightarrow> set (wordIdList i') = dom (tempInverted i')"
    by (auto simp: updateInverted_locked_def Let_def split: sum.splits option.splits if_splits)
  show ?thesis
    unfolding ingest_rel_def using st q d inv by auto
qed

lemma updateForward_Batch_rel:
  assumes "updateForward_Batch wordId pg tf ForwardTable i = Inr i'"
  shows "ingest_rel pg i i' \<and> (\<exists>b. pairs (db i' ForwardTable) pg = Some (Nested b))"
proof (cases "pairs (db i ForwardTable) pg")
  case None
  with assms show ?thesis
    by (auto simp: updateForward_Batch_def CreateBucketIfNotExists_def setNested_def Let_def
        ingest_rel_def split: if_splits)
next
  case (Some e)
  with assms show ?thesis
    by (cases e)
      (auto simp: updateForward_Batch_def CreateBucketIfNotExists_def setNested_def Let_def
        ingest_rel_def split: if_splits)
qed

lemma step_page_task:
  assumes "page_task pg t" and "step t i = Inr (t', i')"
  shows "page_task pg t' \<and> ingest_rel pg i i'"
proof (cases t)
  case (GoUpdateInverted word pageId)
  with assms show ?thesis
    by (auto simp: ingest_rel_refl split: option.splits)
next
  case (UpdateInvertedAlloc word pageId)
  with assms show ?thesis
    by (auto simp: getId_Batch_words_rel split: prod.splits)
next
  case (UpdateInvertedLock word wordId pageId)
  with assms obtain i1 where l: "updateInverted_locked wordId pg i = Inr i1"
    and r: "t' = Finished" "i' = logEvent (Staged word) i1"
    by (auto split: sum.splits)
  from updateInverted_locked_rel [OF l] have "ingest_rel pg i i'"
    by (simp add: ingest_rel_def r)
  with r show ?thesis by simp
next
  case (GoUpdateForward word pageId tf)
  with assms show ?thesis
    by (auto simp: ingest_rel_refl split: option.splits)
next
  case (UpdateForwardAlloc word pageId tf)
  with assms show ?thesis
    by (auto simp: getId_Batch_words_rel split: prod.splits)
next
  case (UpdateForwardBatch word wordId pageId tf)
  with assms obtain i1 where l: "updateForward_Batch wordId pg tf ForwardTable i = Inr i1"
    and r: "t' = Finished" "i' = logEvent (ForwardWritten word) i1"
    by (auto split: sum.splits)
  from updateForward_Batch_rel [OF l] have "ingest_rel pg i i'"
    by (simp add: ingest_rel_def r)
  with r show ?thesis by simp
next
  case Finished
  with assms show ?thesis by (auto simp: ingest_rel_refl)
qed

lemma run_page_tasks:
  assumes "run sched ts i = Inr (ts', i')" and "\<forall>t \<in> set ts. page_task pg t"
  shows "ingest_rel pg i i'"
proof -
  let ?I = "\<lambda>ts1 i1. (\<forall>t \<in> set ts1. page_task pg t) \<and> ingest_rel pg i i1"
  have "?I ts' i'"
  proof (rule run_invariant [OF assms(1), where I = ?I])
    show "?I ts i" using assms(2) by (simp add: ingest_rel_refl)
  next
    fix ts1 i1 k t2 i2
    assume a: "?I ts1 i1" "k < length ts1" "step (ts1 ! k) i1 = Inr (t2, i2)"
    then have "page_task pg (ts1 ! k)" by simp
    from step_page_task [OF this a(3)] a(1) show "?I (ts1[k := t2]) i2"
      by (auto dest: set_update_subset_insert [THEN subsetD] intro: ingest_rel_trans)
  qed
  then show ?thesis by simp
qed

lemma spawn_page_tasks: "\<forall>t \<in> set (spawn pg words). page_task pg t"
  by (induction words) (auto simp: spawn_def)

lemma pending_all_spawn:
  "pending_all (spawn pg words)
     = mset (concat (map (\<lambda>(word, tf). [Staged word, ForwardWritten word]) words))"
  by (induction words) (auto simp: spawn_def pending_all_def)

lemma getId_history: "getId text fwT invT i = (r, i') \<Longrightarrow> history i' = history i"
  by (auto simp: getId_def getId_Batch_def Let_def split: option.splits prod.splits)

lemma getOrCreatePageId_frame:
  assumes "getOrCreatePageId url i = (pg, i1)"
  shows "history i1 = history i \<and> tempInverted i1 = tempInverted i
    \<and> wordIdList i1 = wordIdList i
    \<and> (\<forall>t. t \<noteq> UrlToPageId \<and> t \<noteq> PageIdToUrl \<longrightarrow> db i1 t = db i t)"
  using assms
  by (auto simp: getOrCreatePageId_def getId_def getId_Batch_def NextSequence_def Let_def
      split: option.splits)

text \<open>What an ingestion changes, under every schedule.\<close>

lemma UpdateOrAddPage_effect:
  assumes "UpdateOrAddPage marshal sched p i = Inr i'"
  shows "db i' InvertedTable = db i InvertedTable
    \<and> (\<forall>w q. staged i' w q \<longrightarrow>
          staged i w q \<or> byteToUint64 (fst (getOrCreatePageId (Uri p) i)) = Inr q)
    \<and> (\<forall>w q. staged i w q \<longrightarrow> staged i' w q)
    \<and> (set (wordIdList i) = dom (tempInverted i)
          \<longrightarrow> set (wordIdList i') = dom (tempInverted i'))
    \<and> (\<exists>evs. history i' = history i @ evs @ [MaxTfWritten, PageInfoWritten]
          \<and> mset evs
            = mset (concat (map (\<lambda>(word, tf). [Staged word, ForwardWritten word]) (Words p))))"
proof -
  obtain pg i1 where g: "getOrCreatePageId (Uri p) i = (pg, i1)"
    by (cases "getOrCreatePageId (Uri p) i")
  with assms obtain i2 where r: "goroutines sched (spawn pg (Words p)) i1 = Inr i2"
    and i': "i' = logEvent PageInfoWritten
                (let i3 = logEvent MaxTfWritten (setMaxTf pg (MaxTf p) i2)
                 in i3\<lparr>db := (db i3)(PageInfo := PutUnchecked pg (marshal p) (db i3 PageInfo))\<rparr>)"
    by (auto simp: UpdateOrAddPage_def Let_def split: sum.splits)
  note f = getOrCreatePageId_frame [OF g]
  from goroutines_run [OF r] obtain ts' where
    "run (sched @ wait_schedule (length (spawn pg (Words p)))) (spawn pg (Words p)) i1
       = Inr (ts', i2)"
    by blast
  from run_page_tasks [OF this spawn_page_tasks] have rel: "ingest_rel pg i1 i2" .
  from goroutines_history [OF r] obtain evs where
    h: "history i2 = history i1 @ evs"
    and m: "mset evs
      = mset (concat (map (\<lambda>(word, tf). [Staged word, ForwardWritten word]) (Words p)))"
    by (auto simp: pending_all_spawn)
  have st1: "staged i1 w q = staged i w q" for w q
    using f by (simp add: staged_def)
  have st': "staged i' w q = staged i2 w q" for w q
    by (simp add: i' staged_def logEvent_def setMaxTf_def Let_def)
  have "db i' InvertedTable = db i2 InvertedTable"
    by (simp add: i' logEvent_def setMaxTf_def Let_def)
  moreover have "tempInverted i' = tempInverted i2 \<and> wordIdList i' = wordIdList i2"
    by (simp add: i' logEvent_def setMaxTf_def Let_def)
  moreover have "history i' = history i2 @ [MaxTfWritten, PageInfoWritten]"
    by (simp add: i' logEvent_def setMaxTf_def Let_def)
  ultimately show ?thesis
    using rel f h m g unfolding ingest_rel_def st1 st' by auto
qed

lemma getId_Batch_words_safe:
  assumes "getId_Batch word WordToWordId WordIdToWord i = (r, i')" and "word_ids_long i"
  shows "length r = 8 \<and> word_ids_long i' \<and> db i' ForwardTable = db i ForwardTable"
proof -
  let ?r = "uint64ToByte (sequence (db i WordToWordId) + 1)"
  from assms(1) have r: "r = ?r"
    and d: "db i' WordToWordId
        = PutUnchecked (toBytes word) ?r
            (Bucket (pairs (db i WordToWordId)) (sequence (db i WordToWordId) + 1))"
    and f: "db i' ForwardTable = db i ForwardTable"
    by (auto simp: getId_Batch_def NextSequence_def Let_def)
  have "8 \<le> length v" if "Get (db i' WordToWordId) k = Some v" for k v
  proof -
    from that have "Get (PutUnchecked (toBytes word) ?r
            (Bucket (pairs (db i WordToWordId)) (sequence (db i WordToWordId) + 1))) k = Some v"
      by (simp add: d)
    from Get_Put_cases [OF this] have "Get (db i WordToWordId) k = Some v \<or> v = ?r"
      by (auto simp: Get_def)
    with assms(2) show ?thesis
      by (auto simp: word_ids_long_def length_uint64ToByte)
  qed
  with r f show ?thesis
    by (simp add: word_ids_long_def length_uint64ToByte)
qed

lemma byteToUint64_long: "8 \<le> length b \<Longrightarrow> \<exists>w. byteToUint64 b = Inr w"
  by (simp add: byteToUint64_def)

lemma updateInverted_locked_total:
  assumes "8 \<le> length wordId" and "8 \<le> length pg"
  shows "\<exists>i'. updateInverted_locked wordId pg i = Inr i' \<and> db i' = db i"
proof -
  from byteToUint64_long [OF assms(1)] byteToUint64_long [OF assms(2)]
  obtain w q where "byteToUint64 wordId = Inr w" "byteToUint64 pg = Inr q"
    by blast
  then show ?thesis
    by (auto simp: updateInverted_locked_def Let_def split: option.splits)
qed

lemma updateForward_Batch_total:
  assumes "8 \<le> length pg" and "\<forall>v. pairs (db i ForwardTable) pg \<noteq> Some (Value v)"
  shows "\<exists>i'. updateForward_Batch wordId pg tf ForwardTable i = Inr i'
    \<and> db i' WordToWordId = db i WordToWordId
    \<and> (\<forall>v. pairs (db i' ForwardTable) pg \<noteq> Some (Value v))"
proof (cases "pairs (db i ForwardTable) pg")
  case None
  with assms show ?thesis
    by (auto simp: updateForward_Batch_def CreateBucketIfNotExists_def setNested_def Let_def)
next
  case (Some e)
  with assms show ?thesis
    by (cases e)
      (auto simp: updateForward_Batch_def CreateBucketIfNotExists_def setNested_def Let_def)
qed

lemma word_ids_long_cong: "db i' WordToWordId = db i WordToWordId \<Longrightarrow> word_ids_long i' = word_ids_long i"
  by (simp add: word_ids_long_def)

lemma ingest_safe_update:
  assumes "ingest_safe pg ts i" and "safe_task pg t'" and "word_ids_long i'"
    and "\<forall>v. pairs (db i' ForwardTable) pg \<noteq> Some (Value v)"
  shows "ingest_safe pg (ts[k := t']) i'"
  using assms
  by (auto simp: ingest_safe_def dest: set_update_subset_insert [THEN subsetD])

lemma ingest_safe_step:
  assumes s: "ingest_safe pg ts i" and k: "k < length ts"
  shows "\<exists>t' i'. step (ts ! k) i = Inr (t', i') \<and> ingest_safe pg (ts[k := t']) i'"
proof -
  from s k have t: "safe_task pg (ts ! k)" and wl: "word_ids_long i" and pl: "8 \<le> length pg"
    and nv: "\<forall>v. pairs (db i ForwardTable) pg \<noteq> Some (Value v)"
    by (auto simp: ingest_safe_def)
  show ?thesis
  proof (cases "ts ! k")
    case (GoUpdateInverted word pageId)
    with t have pg: "pageId = pg" by simp
    show ?thesis
    proof (cases "getId_View word WordToWordId i")
      case None
      with GoUpdateInverted pg ingest_safe_update [OF s _ wl nv] show ?thesis by simp
    next
      case (Some wordId)
      with wl have "8 \<le> length wordId"
        by (auto simp: word_ids_long_def getId_View_def)
      with Some GoUpdateInverted pg ingest_safe_update [OF s _ wl nv] show ?thesis by simp
    qed
  next
    case (UpdateInvertedAlloc word pageId)
    with t have pg: "pageId = pg" by simp
    obtain r i' where g: "getId_Batch word WordToWordId WordIdToWord i = (r, i')"
      by (cases "getId_Batch word WordToWordId WordIdToWord i")
    from getId_Batch_words_safe [OF g wl] nv
    have "safe_task pg (UpdateInvertedLock word r pg)" "word_ids_long i'"
      "\<forall>v. pairs (db i' ForwardTable) pg \<noteq> Some (Value v)"
      by simp_all
    from ingest_safe_update [OF s this] g UpdateInvertedAlloc pg show ?thesis by simp
  next
    case (UpdateInvertedLock word wordId pageId)
    with t have pg: "pageId = pg" and wi: "8 \<le> length wordId" by simp_all
    from updateInverted_locked_total [OF wi pl, of i] obtain i1 where
      l: "updateInverted_locked wordId pg i = Inr i1" and d: "db i1 = db i"
      by blast
    from d wl nv have "word_ids_long (logEvent (Staged word) i1)"
      "\<forall>v. pairs (db (logEvent (Staged word) i1) ForwardTable) pg \<noteq> Some (Value v)"
      by (simp_all add: word_ids_long_def logEvent_def)
    from ingest_safe_update [OF s _ this, of Finished] l UpdateInvertedLock pg show ?thesis
      by simp
  next
    case (GoUpdateForward word pageId tf)
    with t have pg: "pageId = pg" by simp
    show ?thesis
    proof (cases "getId_View word WordToWordId i")
      case None
      with GoUpdateForward pg ingest_safe_update [OF s _ wl nv] show ?thesis by simp
    next
      case (Some wordId)
      with GoUpdateForward pg ingest_safe_update [OF s _ wl nv] show ?thesis by simp
    qed
  next
    case (UpdateForwardAlloc word pageId tf)
    with t have pg: "pageId = pg" by simp
    obtain r i' where g: "getId_Batch word WordToWordId WordIdToWord i = (r, i')"
      by (cases "getId_Batch word WordToWordId WordIdToWord i")
    from getId_Batch_words_safe [OF g wl] nv
    have "safe_task pg (UpdateForwardBatch word r pg tf)" "word_ids_long i'"
      "\<forall>v. pairs (db i' ForwardTable) pg \<noteq> Some (Value v)"
      by simp_all
    from ingest_safe_update [OF s this] g UpdateForwardAlloc pg show ?thesis by simp
  next
    case (UpdateForwardBatch word wordId pageId tf)
    with t have pg: "pageId = pg" by simp
    from updateForward_Batch_total [OF pl nv, of wordId tf] obtain i1 where
      l: "updateForward_Batch wordId pg tf ForwardTable i = Inr i1"
      and d: "db i1 WordToWordId = db i WordToWordId"
      and n: "\<forall>v. pairs (db i1 ForwardTable) pg \<noteq> Some (Value v)"
      by blast
    from d wl n have "word_ids_long (logEvent (ForwardWritten word) i1)"
      "\<forall>v. pairs (db (logEvent (ForwardWritten word) i1) ForwardTable) pg \<noteq> Some (Value v)"
      by (simp_all add: word_ids_long_def logEvent_def)
    from ingest_safe_update [OF s _ this, of Finished] l UpdateForwardBatch pg show ?thesis
      by simp
  next
    case Finished
    then have "ts[k := Finished] = ts" by (metis list_update_id)
    with Finished s show ?thesis by simp
  qed
qed

lemma safe_spawn: "\<forall>t \<in> set (spawn pg words). safe_task pg t"
  by (induction words) (auto simp: spawn_def)

lemma getOrCreatePageId_long:
  assumes "getOrCreatePageId url i = (pg, i1)" and "url_ids_long i"
  shows "8 \<le> length pg"
  using assms
  by (auto simp: getOrCreatePageId_def getId_def getId_View_def getId_Batch_def NextSequence_def
      Let_def url_ids_long_def length_uint64ToByte split: option.splits)

lemma UpdateOrAddPage_total:
  assumes "ready i p"
  shows "\<exists>i'. UpdateOrAddPage marshal sched p i = Inr i'"
proof -
  obtain pg i1 where g: "getOrCreatePageId (Uri p) i = (pg, i1)"
    by (cases "getOrCreatePageId (Uri p) i")
  note f = getOrCreatePageId_frame [OF g]
  let ?ts = "spawn pg (Words p)"
  have "\<exists>ts' i2. run (sched @ wait_schedule (length ?ts)) ?ts i1 = Inr (ts', i2)"
  proof (cases "Words p = []")
    case True
    then have "\<forall>t \<in> set ?ts. t = Finished" by (simp add: spawn_def)
    from run_all_finished [OF this] show ?thesis by blast
  next
    case False
    from assms f have "word_ids_long i1"
      by (simp add: ready_def word_ids_long_def)
    moreover from assms g have "8 \<le> length pg"
      by (auto simp: ready_def intro: getOrCreatePageId_long)
    moreover from assms False g f have "\<forall>v. pairs (db i1 ForwardTable) pg \<noteq> Some (Value v)"
      by (simp add: ready_def)
    ultimately have "ingest_safe pg ?ts i1"
      using safe_spawn by (simp add: ingest_safe_def)
    from run_total [where I = "ingest_safe pg", OF this ingest_safe_step] show ?thesis
      by blast
  qed
  with g show ?thesis
    by (auto simp: UpdateOrAddPage_def goroutines_def Let_def)
qed

lemma pending_spawn: "map pending (spawn pg words) = map (\<lambda>e. [e]) (term_writes words)"
  by (induction words) (auto simp: spawn_def term_writes_def)

lemma length_spawn: "length (spawn pg words) = 2 * length words"
  by (induction words) (auto simp: spawn_def)

lemma length_term_writes: "length (term_writes words) = 2 * length words"
  by (induction words) (auto simp: term_writes_def)

lemma pending_spawn_nth:
  assumes "k < 2 * length words"
  shows "pending (spawn pg words ! k) = [term_writes words ! k]"
proof -
  from assms have "pending (spawn pg words ! k) = map pending (spawn pg words) ! k"
    by (simp add: length_spawn)
  also have "\<dots> = map (\<lambda>e. [e]) (term_writes words) ! k"
    by (simp add: pending_spawn)
  also from assms have "\<dots> = [term_writes words ! k]"
    by (simp add: length_term_writes)
  finally show ?thesis .
qed

lemma goroutines_one_by_one:
  assumes "goroutines (one_by_one ks) ts i = Inr i'" and "distinct ks"
    and "set ks = {..< length ts}"
  shows "history i' = history i @ concat (map (\<lambda>k. pending (ts ! k)) ks)"
proof -
  from assms(1) obtain ts' where
    r: "run (one_by_one ks @ wait_schedule (length ts)) ts i = Inr (ts', i')"
    by (auto simp: goroutines_def split: sum.splits prod.splits)
  then obtain ts1 i1 where a: "run (one_by_one ks) ts i = Inr (ts1, i1)"
    and b: "run (wait_schedule (length ts)) ts1 i1 = Inr (ts', i')"
    unfolding run_append by (auto split: sum.splits prod.splits)
  from assms(3) have "\<forall>k \<in> set ks. k < length ts" by auto
  from run_one_by_one [OF a assms(2) this] assms(3) have
    h: "history i1 = history i @ concat (map (\<lambda>k. pending (ts ! k)) ks)"
    and f: "\<forall>k < length ts1. ts1 ! k = Finished"
    by auto
  from f have "\<forall>t \<in> set ts1. t = Finished"
    by (auto simp: in_set_conv_nth)
  from run_all_finished [OF this, of "wait_schedule (length ts)" i1] b have "i' = i1"
    by simp
  with h show ?thesis by simp
qed

lemma ready_empty: "ready (LoadIndexer emptyDb) p"
  by (simp add: ready_def url_ids_long_def word_ids_long_def LoadIndexer_def emptyDb_def
      emptyBucket_def Get_def getOrCreatePageId_def getId_def getId_View_def getId_Batch_def
      NextSequence_def Let_def)

lemma UpdateOrAddPage_one_by_one:
  assumes "UpdateOrAddPage marshal (one_by_one ks) p i = Inr i'" and "distinct ks"
    and "set ks = {..< 2 * length (Words p)}"
  shows "history i' = history i @ map (\<lambda>k. term_writes (Words p) ! k) ks
           @ [MaxTfWritten, PageInfoWritten]"
proof -
  obtain pg i1 where g: "getOrCreatePageId (Uri p) i = (pg, i1)"
    by (cases "getOrCreatePageId (Uri p) i")
  with assms(1) obtain i2 where r: "goroutines (one_by_one ks) (spawn pg (Words p)) i1 = Inr i2"
    and i': "i' = logEvent PageInfoWritten
                (let i3 = logEvent MaxTfWritten (setMaxTf pg (MaxTf p) i2)
                 in i3\<lparr>db := (db i3)(PageInfo := PutUnchecked pg (marshal p) (db i3 PageInfo))\<rparr>)"
    by (auto simp: UpdateOrAddPage_def Let_def split: sum.splits)
  from assms(3) have s: "set ks = {..< length (spawn pg (Words p))}"
    by (simp add: length_spawn)
  from goroutines_one_by_one [OF r assms(2) s] have
    "history i2 = history i1 @ concat (map (\<lambda>k. pending (spawn pg (Words p) ! k)) ks)" .
  moreover from assms(3) have
    "map (\<lambda>k. pending (spawn pg (Words p) ! k)) ks = map (\<lambda>k. [term_writes (Words p) ! k]) ks"
    by (intro map_cong refl pending_spawn_nth) auto
  moreover have "concat (map (\<lambda>k. [term_writes (Words p) ! k]) ks)
      = map (\<lambda>k. term_writes (Words p) ! k) ks"
    by (induction ks) auto
  moreover from getOrCreatePageId_frame [OF g] have "history i1 = history i"
    by simp
  moreover have "history i' = history i2 @ [MaxTfWritten, PageInfoWritten]"
    by (simp add: i' logEvent_def setMaxTf_def Let_def)
  ultimately show ?thesis by simp
qed

text \<open>
  C5. Take an indexer whose stored ids have their eight bytes and whose forward index
  holds no plain value under the page id of the document (\<open>ready\<close>). Under every
  schedule of the goroutines \<^verbatim>\<open>UpdateOrAddPage\<close> returns, and the writes it has carried
  out are: the staging and the forward-index write of every term, each once and all of
  them first, then the write of the maximal term frequency, then the write of the
  document record. The writes of the terms come in no fixed order: for every order
  \<open>ks\<close> of the goroutines there is a schedule under which their writes are carried out
  in that order.
\<close>

theorem UpdateOrAddPage_join_barrier:
  assumes "ready i p"
  shows "(\<exists>i' evs. UpdateOrAddPage marshal sched p i = Inr i'
            \<and> history i' = history i @ evs @ [MaxTfWritten, PageInfoWritten]
            \<and> mset evs = mset (term_writes (Words p)))
       \<and> (distinct ks \<and> set ks = {..< 2 * length (Words p)} \<longrightarrow>
            (\<exists>i'. UpdateOrAddPage marshal (one_by_one ks) p i = Inr i'
               \<and> history i' = history i @ map (\<lambda>k. term_writes (Words p) ! k) ks
                                @ [MaxTfWritten, PageInfoWritten]))"
proof
  from UpdateOrAddPage_total [OF assms] obtain i' where
    r: "UpdateOrAddPage marshal sched p i = Inr i'"
    by blast
  from UpdateOrAddPage_effect [OF r] r
  show "\<exists>i' evs. UpdateOrAddPage marshal sched p i = Inr i'
            \<and> history i' = history i @ evs @ [MaxTfWritten, PageInfoWritten]
            \<and> mset evs = mset (term_writes (Words p))"
    unfolding term_writes_def by blast
next
  show "distinct ks \<and> set ks = {..< 2 * length (Words p)} \<longrightarrow>
            (\<exists>i'. UpdateOrAddPage marshal (one_by_one ks) p i = Inr i'
               \<and> history i' = history i @ map (\<lambda>k. term_writes (Words p) ! k) ks
                                @ [MaxTfWritten, PageInfoWritten])"
  proof
    assume k: "distinct ks \<and> set ks = {..< 2 * length (Words p)}"
    from UpdateOrAddPage_total [OF assms] obtain i' where
      r: "UpdateOrAddPage marshal (one_by_one ks) p i = Inr i'"
      by blast
    from UpdateOrAddPage_one_by_one [OF r] k r show
      "\<exists>i'. UpdateOrAddPage marshal (one_by_one ks) p i = Inr i'
         \<and> history i' = history i @ map (\<lambda>k. term_writes (Words p) ! k) ks
                          @ [MaxTfWritten, PageInfoWritten]"
      by blast
  qed
qed

theorem UpdateOrAddPage_join_barrier_witness:
  "\<exists>i'. UpdateOrAddPage (\<lambda>p. []) (one_by_one [3, 0, 2, 1]) twoTermDoc (LoadIndexer emptyDb) = Inr i'
     \<and> history i' = [ForwardWritten ''fox'', Staged ''quick'', Staged ''fox'',
                      ForwardWritten ''quick'', MaxTfWritten, PageInfoWritten]"
proof -
  have "{..< 2 * length (Words twoTermDoc)} = {..< Suc (Suc (Suc (Suc 0)))}"
    by (simp add: twoTermDoc_def)
  also have "\<dots> = set [3, 0, 2, 1 :: nat]"
    by (simp only: lessThan_Suc lessThan_0) auto
  finally have k: "distinct [3, 0, 2, 1 :: nat]
      \<and> set [3, 0, 2, 1 :: nat] = {..< 2 * length (Words twoTermDoc)}"
    by simp
  have t: "map (\<lambda>k. term_writes (Words twoTermDoc) ! k) [3, 0, 2, 1]
      = [ForwardWritten ''fox'', Staged ''quick'', Staged ''fox'', ForwardWritten ''quick'']"
    by (simp add: term_writes_def twoTermDoc_def numeral_3_eq_3 numeral_2_eq_2)
  have h: "history (LoadIndexer emptyDb) = []"
    by (simp add: LoadIndexer_def)
  from UpdateOrAddPage_join_barrier [OF ready_empty, of "\<lambda>p. []" "[]" twoTermDoc "[3, 0, 2, 1]"]
  have "\<exists>i'. UpdateOrAddPage (\<lambda>p. []) (one_by_one [3, 0, 2, 1]) twoTermDoc (LoadIndexer emptyDb)
           = Inr i'
         \<and> history i' = history (LoadIndexer emptyDb)
             @ map (\<lambda>k. term_writes (Words twoTermDoc) ! k) [3, 0, 2, 1]
             @ [MaxTfWritten, PageInfoWritten]"
    using k by blast
  then show ?thesis
    unfolding t h by simp
qed

section \<open>Re-ingestion\<close>

lemma posting_cong: "d' InvertedTable = d InvertedTable \<Longrightarrow> posting d' w = posting d w"
  by (simp add: posting_def)

lemma UpdateOrAddPage_inverted:
  "UpdateOrAddPage marshal sched p i = Inr i' \<Longrightarrow> db i' InvertedTable = db i InvertedTable"
  by (drule UpdateOrAddPage_effect) (erule conjE)+

lemma UpdateOrAddPage_staged:
  "UpdateOrAddPage marshal sched p i = Inr i' \<Longrightarrow> staged i' w q
     \<Longrightarrow> staged i w q \<or> byteToUint64 (fst (getOrCreatePageId (Uri p) i)) = Inr q"
  by (drule UpdateOrAddPage_effect) (erule conjE, erule conjE, erule allE, erule allE, erule mp)

lemma UpdateOrAddPage_staging:
  "UpdateOrAddPage marshal sched p i = Inr i' \<Longrightarrow> set (wordIdList i) = dom (tempInverted i)
     \<Longrightarrow> set (wordIdList i') = dom (tempInverted i')"
  by (drule UpdateOrAddPage_effect) (erule conjE, erule conjE, erule conjE, erule conjE, erule mp)

text \<open>
  The goroutines of an ingestion, \<^verbatim>\<open>setMaxTf\<close> and the write of the document record
  leave the table of the urls as \<^verbatim>\<open>getOrCreatePageId\<close> has left it.
\<close>

lemma UpdateOrAddPage_url_table:
  assumes "UpdateOrAddPage marshal sched p i = Inr i'"
  shows "db i' UrlToPageId = db (snd (getOrCreatePageId (Uri p) i)) UrlToPageId"
proof -
  obtain pg i1 where g: "getOrCreatePageId (Uri p) i = (pg, i1)"
    by (cases "getOrCreatePageId (Uri p) i")
  with assms obtain i2 where r: "goroutines sched (spawn pg (Words p)) i1 = Inr i2"
    and i': "i' = logEvent PageInfoWritten
                (let i3 = logEvent MaxTfWritten (setMaxTf pg (MaxTf p) i2)
                 in i3\<lparr>db := (db i3)(PageInfo := PutUnchecked pg (marshal p) (db i3 PageInfo))\<rparr>)"
    by (auto simp: UpdateOrAddPage_def Let_def split: sum.splits)
  from goroutines_run [OF r] obtain ts' where
    "run (sched @ wait_schedule (length (spawn pg (Words p)))) (spawn pg (Words p)) i1
       = Inr (ts', i2)"
    by blast
  from run_page_tasks [OF this spawn_page_tasks] have "ingest_rel pg i1 i2" .
  then have "db i2 UrlToPageId = db i1 UrlToPageId"
    by (simp add: ingest_rel_tables)
  moreover have "db i' UrlToPageId = db i2 UrlToPageId"
    by (simp add: i' logEvent_def setMaxTf_def Let_def)
  ultimately show ?thesis
    by (simp add: g)
qed

text \<open>
  A url that the store accepts as a key is in the table of the urls after
  \<^verbatim>\<open>getOrCreatePageId\<close>, with the id that was returned, and a later call finds it.
\<close>

lemma getOrCreatePageId_stored:
  assumes "url \<noteq> []" and "length url \<le> MaxKeySize" and "plain_values (db i UrlToPageId)"
  shows "Get (db (snd (getOrCreatePageId url i)) UrlToPageId) (toBytes url)
    = Some (fst (getOrCreatePageId url i))"
proof (cases "Get (db i UrlToPageId) (toBytes url)")
  case (Some v)
  then show ?thesis
    by (simp add: getOrCreatePageId_def getId_def getId_View_def)
next
  case None
  have k: "toBytes url \<noteq> []" "length (toBytes url) \<le> MaxKeySize"
    using assms(1,2) by (simp_all add: toBytes_def)
  have v: "length (uint64ToByte n) \<le> MaxValueSize" for n
    by (simp add: length_uint64ToByte MaxValueSize_def)
  have p: "plain_values (Bucket (pairs (db i UrlToPageId)) s)" for s
    using assms(3) by (simp add: plain_values_Bucket)
  from None show ?thesis
    by (simp add: getOrCreatePageId_def getId_def getId_View_def getId_Batch_db
        Get_Put_same [OF k v p])
qed

lemma getOrCreatePageId_found:
  "Get (db i UrlToPageId) (toBytes url) = Some pg \<Longrightarrow> getOrCreatePageId url i = (pg, i)"
  by (simp add: getOrCreatePageId_def getId_def getId_View_def)

text \<open>
  C9, as amended. A document whose url the store accepts as a key (1 to 32768 bytes)
  is ingested into an indexer whose table of the urls holds plain values only, and the
  staging is flushed; once the transactions of that flush are committed the same
  document is ingested again and the staging is flushed again, under any schedules.
  \<open>pid\<close> is the page id that the first ingestion gave the document. Every posting list
  that holds \<open>pid\<close> before the second round has the same keys, and so the same number
  of keys, when the second \<^verbatim>\<open>FlushInverted\<close> returns and also once its transactions
  are committed.
\<close>

theorem reingest_posting_lists:
  assumes "Uri p \<noteq> []" and "length (Uri p) \<le> MaxKeySize"
    and "plain_values (db i0 UrlToPageId)"
    and "set (wordIdList i0) = dom (tempInverted i0)"
    and "UpdateOrAddPage marshal s1 p i0 = Inr a" and "FlushInverted s2 a = Inr r1"
    and "UpdateOrAddPage marshal s3 p (committed r1) = Inr b"
    and "FlushInverted s4 b = Inr r2"
    and "byteToUint64 (fst (getOrCreatePageId (Uri p) i0)) = Inr pid"
    and "uint64ToByte pid \<in> posting (db (committed r1)) w"
  shows "posting (db (fst r2)) w = posting (db (committed r1)) w
    \<and> posting (db (committed r2)) w = posting (db (committed r1)) w
    \<and> card (posting (db (fst r2)) w) = card (posting (db (committed r1)) w)
    \<and> card (posting (db (committed r2)) w) = card (posting (db (committed r1)) w)"
proof -
  let ?i1 = "committed r1"
  let ?pg = "fst (getOrCreatePageId (Uri p) i0)"
  from UpdateOrAddPage_staging [OF assms(5,4)] have sa: "set (wordIdList a) = dom (tempInverted a)" .
  have "Get (db ?i1 UrlToPageId) (toBytes (Uri p)) = Some ?pg"
    using getOrCreatePageId_stored [OF assms(1-3)] UpdateOrAddPage_url_table [OF assms(5)]
      FlushInverted_other_tables(2) [OF assms(6), of UrlToPageId]
    by simp
  from getOrCreatePageId_found [OF this] have same: "fst (getOrCreatePageId (Uri p) ?i1) = ?pg"
    by simp
  have flushed: "uint64ToByte q \<in> posting (db ?i1) v" if "staged ?i1 v q" for v q
  proof -
    from FlushInverted_staging(1) [OF assms(6)] that have st: "staged a v q"
      by (simp add: staged_def)
    then have "v \<in> dom (tempInverted a)"
      by (auto simp: staged_def split: option.splits)
    with sa have "v \<in> set (wordIdList a)"
      by simp
    with FlushInverted_posting [OF assms(6), of v]
    have "posting (db ?i1) v = posting (db a) v \<union> uint64ToByte ` {p. staged a v p}"
      by simp
    with st show ?thesis by blast
  qed
  from UpdateOrAddPage_inverted [OF assms(7)] have pb: "posting (db b) w = posting (db ?i1) w"
    by (rule posting_cong)
  have sub: "uint64ToByte ` {q. staged b w q} \<subseteq> posting (db ?i1) w"
  proof
    fix x
    assume "x \<in> uint64ToByte ` {q. staged b w q}"
    then obtain q where x: "x = uint64ToByte q" and q: "staged b w q"
      by blast
    from UpdateOrAddPage_staged [OF assms(7) q]
    show "x \<in> posting (db ?i1) w"
    proof
      assume "staged ?i1 w q"
      from flushed [OF this] x show ?thesis by simp
    next
      assume "byteToUint64 (fst (getOrCreatePageId (Uri p) ?i1)) = Inr q"
      with assms(9) same have "q = pid" by simp
      with assms(10) x show ?thesis by simp
    qed
  qed
  from FlushInverted_posting [OF assms(8), of w] pb sub
  have c: "posting (db (committed r2)) w = posting (db ?i1) w"
    by (simp split: if_splits) blast
  from FlushInverted_at_return [OF assms(8), of w] pb sub
  have r: "posting (db (fst r2)) w = posting (db ?i1) w"
    by blast
  from c r show ?thesis by simp
qed

section \<open>Runs on the example documents\<close>

lemmas run_defs = LoadIndexer_def getId_def getId_View_def getId_Batch_def getOrCreatePageId_def
  getOrCreateWordId_def updateInverted_locked_def updateForward_Batch_def
  setMaxTf_def getMaxTf_def logEvent_def FlushInverted_def FlushInverted_Batch_def
  txView_def committed_def
  goroutines_def wait_schedule_def spawn_def UpdateOrAddPage_def
  intToByte_def byteToInt_def Get_def Put_def PutUnchecked_def NextSequence_def CreateBucketIfNotExists_def
  setNested_def emptyBucket_def emptyDb_def MaxKeySize_def MaxValueSize_def toBytes_def
  byteToUint64_uint64ToByte length_uint64ToByte upt_rec Let_def

text \<open>
  C1. A document with the single new term quick is ingested into the empty database
  while the two goroutines of the term take turns: both run the \<^verbatim>\<open>View\<close> of
  \<^verbatim>\<open>getId\<close> and find no id, then both run the \<^verbatim>\<open>Batch\<close>, and the term is given the id
  1 by \<^verbatim>\<open>updateInverted\<close> and the id 2 by \<^verbatim>\<open>updateForward\<close>. The word id of the term
  ends as 2, the page is staged under word id 1 only, and nothing is staged under the
  word id of the term.
\<close>

theorem UpdateOrAddPage_id_race:
  "(case UpdateOrAddPage (\<lambda>p. []) [0, 1, 0, 1, 0, 1] racingDoc (LoadIndexer emptyDb) of
      Inl p \<Rightarrow> False
    | Inr i \<Rightarrow>
        Get (db i UrlToPageId) (toBytes ''u1'') = Some (uint64ToByte 1)
        \<and> Get (db i WordToWordId) (toBytes ''quick'') = Some (uint64ToByte 2)
        \<and> \<not> staged i 2 1 \<and> staged i 1 1
        \<and> forwardEntry (db i) (uint64ToByte 1) (uint64ToByte 2) = Some (intToByte 1))"
  by (simp add: racingDoc_def run_defs staged_def forwardEntry_def)

text \<open>
  C3. A document with one term and the maximal term frequency 3 is ingested into the
  empty database, the goroutines running one after the other. The key of the page in
  the forward index holds the sub-table of the term frequencies, so the \<^verbatim>\<open>Put\<close> of
  \<^verbatim>\<open>setMaxTf\<close> is refused and nothing is stored; \<^verbatim>\<open>Get\<close> returns nil for the key and
  \<^verbatim>\<open>getMaxTf\<close> does not return 3.
\<close>

theorem setMaxTf_on_sub_table:
  "(case UpdateOrAddPage (\<lambda>p. []) [] maxTfDoc (LoadIndexer emptyDb) of
      Inl p \<Rightarrow> False
    | Inr i \<Rightarrow>
        Get (db i UrlToPageId) (toBytes ''u1'') = Some (uint64ToByte 1)
        \<and> forwardEntry (db i) (uint64ToByte 1) (uint64ToByte 1) = Some (intToByte 3)
        \<and> Get (db i ForwardTable) (uint64ToByte 1) = None
        \<and> getMaxTf (uint64ToByte 1) i = Inl IndexOutOfRange)"
  by (simp add: maxTfDoc_def run_defs forwardEntry_def) (simp add: byteToUint64_def)

lemma step_forward_task:
  assumes "page_task pg t" and "forward_task t" and "step t i = Inr (t', i')"
  shows "forward_task t' \<or> (\<exists>b. pairs (db i' ForwardTable) pg = Some (Nested b))"
proof (cases t)
  case (UpdateForwardBatch word wordId pageId tf)
  with assms obtain i1 where l: "updateForward_Batch wordId pg tf ForwardTable i = Inr i1"
    and r: "i' = logEvent (ForwardWritten word) i1"
    by (auto split: sum.splits)
  from updateForward_Batch_rel [OF l] r show ?thesis by simp
qed (use assms in \<open>auto split: option.splits prod.splits\<close>)

lemma step_not_forward_task:
  assumes "\<not> forward_task t" and "step t i = Inr (t', i')"
  shows "\<not> forward_task t'"
  using assms by (cases t) (auto split: option.splits prod.splits sum.splits)

lemma forward_inv_step:
  assumes inv: "forward_inv pg ts0 ts i" and k: "k < length ts"
    and s: "step (ts ! k) i = Inr (t', i')"
  shows "forward_inv pg ts0 (ts[k := t']) i'"
proof -
  from inv k have pt: "page_task pg (ts ! k)" and len: "length ts = length ts0"
    by (auto simp: forward_inv_def)
  from step_page_task [OF pt s] have pt': "page_task pg t'" and rel: "ingest_rel pg i i'"
    by simp_all
  have "\<exists>b. pairs (db i' ForwardTable) pg = Some (Nested b)"
    if "j < length ts0" "forward_task (ts0 ! j)" "\<not> forward_task (ts[k := t'] ! j)" for j
  proof (cases "forward_task (ts ! j)")
    case True
    with that(3) have jk: "j = k"
      by (cases "j = k") auto
    with that(1,3) len have "\<not> forward_task t'" by simp
    with step_forward_task [OF pt _ s] True jk show ?thesis by simp
  next
    case False
    with inv that(1,2) have "\<exists>b. pairs (db i ForwardTable) pg = Some (Nested b)"
      by (auto simp: forward_inv_def)
    from ingest_rel_nested [OF rel this] show ?thesis .
  qed
  moreover from inv pt' have "\<forall>t \<in> set (ts[k := t']). page_task pg t"
    by (auto simp: forward_inv_def dest: set_update_subset_insert [THEN subsetD])
  ultimately show ?thesis
    using len by (auto simp: forward_inv_def)
qed

lemma spawn_forward_task:
  "words \<noteq> [] \<Longrightarrow> 1 < length (spawn pg words) \<and> forward_task (spawn pg words ! 1)"
  by (cases words) (auto simp: spawn_def)

text \<open>
  Under every schedule and from every state, a document with at least one term leaves
  the sub-table of its page under the key of the page in the forward index: the
  maximal term frequency is not stored there and \<^verbatim>\<open>getMaxTf\<close> finds nothing to decode.
\<close>

lemma UpdateOrAddPage_MaxTf_not_stored:
  assumes "UpdateOrAddPage marshal sched p i = Inr i'" and "Words p \<noteq> []"
  shows "Get (db i' ForwardTable) (fst (getOrCreatePageId (Uri p) i)) = None
    \<and> getMaxTf (fst (getOrCreatePageId (Uri p) i)) i' = Inl IndexOutOfRange"
proof -
  obtain pg i1 where g: "getOrCreatePageId (Uri p) i = (pg, i1)"
    by (cases "getOrCreatePageId (Uri p) i")
  with assms(1) obtain i2 where r: "goroutines sched (spawn pg (Words p)) i1 = Inr i2"
    and i': "i' = logEvent PageInfoWritten
                (let i3 = logEvent MaxTfWritten (setMaxTf pg (MaxTf p) i2)
                 in i3\<lparr>db := (db i3)(PageInfo := PutUnchecked pg (marshal p) (db i3 PageInfo))\<rparr>)"
    by (auto simp: UpdateOrAddPage_def Let_def split: sum.splits)
  let ?ts = "spawn pg (Words p)"
  from goroutines_run [OF r] obtain ts' where
    run: "run (sched @ wait_schedule (length ?ts)) ?ts i1 = Inr (ts', i2)"
    and fin: "\<forall>t \<in> set ts'. t = Finished" and len: "length ts' = length ?ts"
    by blast
  have "forward_inv pg ?ts ts' i2"
  proof (rule run_invariant [OF run, where I = "forward_inv pg ?ts"])
    show "forward_inv pg ?ts ?ts i1"
      using spawn_page_tasks by (simp add: forward_inv_def)
  qed (rule forward_inv_step)
  moreover have "\<exists>k < length ?ts. forward_task (?ts ! k) \<and> \<not> forward_task (ts' ! k)"
  proof -
    from spawn_forward_task [OF assms(2), of pg] have l: "1 < length ?ts"
      and f: "forward_task (?ts ! 1)"
      by simp_all
    from l len fin have "ts' ! 1 = Finished"
      by (metis nth_mem)
    with l f show ?thesis
      by (intro exI [of _ 1]) simp
  qed
  ultimately obtain b where n: "pairs (db i2 ForwardTable) pg = Some (Nested b)"
    by (auto simp: forward_inv_def)
  then have "pairs (db i' ForwardTable) pg = Some (Nested b)"
    by (auto simp: i' logEvent_def setMaxTf_def PutUnchecked_def Put_def Let_def)
  then have "Get (db i' ForwardTable) pg = None"
    by (simp add: Get_def)
  then show ?thesis
    using g by (simp add: getMaxTf_def byteToInt_def byteToUint64_def)
qed

text \<open>
  The word id is appended exactly when its posting set is created, and the same holds
  when the calls run as goroutines under any schedule: only the critical section
  changes the staging.
\<close>

lemma updateInverted_locked_appends:
  assumes "updateInverted_locked wordId pageId i = Inr i'" and "byteToUint64 wordId = Inr w"
  shows "wordIdList i' = (if tempInverted i w = None then wordIdList i @ [w] else wordIdList i)
    \<and> tempInverted i' w \<noteq> None"
  using assms
  by (auto simp: updateInverted_locked_def Let_def split: sum.splits option.splits)

lemma step_staging:
  assumes "step t i = Inr (t', i')"
    and "distinct (wordIdList i)" and "set (wordIdList i) = dom (tempInverted i)"
  shows "distinct (wordIdList i') \<and> set (wordIdList i') = dom (tempInverted i')"
proof (cases t)
  case (UpdateInvertedLock word wordId pageId)
  with assms(1) obtain i1 where l: "updateInverted_locked wordId pageId i = Inr i1"
    and i': "i' = logEvent (Staged word) i1"
    by (auto split: sum.splits)
  from updateInverted_locked_staging [OF l assms(2,3)] show ?thesis
    by (simp add: i')
next
  case (UpdateForwardBatch word wordId pageId tf)
  with assms show ?thesis
    by (auto simp: updateForward_Batch_def Let_def split: sum.splits prod.splits)
qed (use assms in \<open>auto simp: getId_Batch_def Let_def split: option.splits prod.splits\<close>)

lemma run_staging:
  assumes "run sched ts i = Inr (ts', i')"
    and "distinct (wordIdList i)" and "set (wordIdList i) = dom (tempInverted i)"
  shows "distinct (wordIdList i') \<and> set (wordIdList i') = dom (tempInverted i')"
proof -
  let ?I = "\<lambda>(ts1 :: task list) i1.
    distinct (wordIdList i1) \<and> set (wordIdList i1) = dom (tempInverted i1)"
  have "?I ts' i'"
  proof (rule run_invariant [OF assms(1), where I = ?I])
    show "?I ts i" using assms(2,3) by simp
  next
    fix ts1 i1 k t2 i2
    assume "?I ts1 i1" "k < length ts1" "step (ts1 ! k) i1 = Inr (t2, i2)"
    then show "?I (ts1[k := t2]) i2"
      using step_staging by blast
  qed
  then show ?thesis .
qed

lemma secondSession_sub_tables: "sub_tables_only secondSession"
  by (simp add: sub_tables_only_def secondSession_def emptyDb_def emptyBucket_def)

theorem FlushInverted_merges_witness:
  "\<exists>r. FlushInverted [] secondSession = Inr r
     \<and> wordIdList (fst r) = [1]
     \<and> posting (db (committed r)) 1 = {uint64ToByte 1, uint64ToByte 2}"
proof -
  have p: "posting (db secondSession) 1 = {uint64ToByte 1}"
    by (simp add: posting_def secondSession_def)
  have s: "{p. staged secondSession 1 p} = {2}"
    by (auto simp: staged_def secondSession_def)
  have w: "wordIdList secondSession = [1]"
    by (simp add: secondSession_def)
  from FlushInverted_merges [OF secondSession_sub_tables, of "[]"] show ?thesis
    by (auto simp: p s w)
qed

text \<open>
  C2, as stated, fails: in \<open>secondSession\<close> the function of word 1 runs and its
  transaction is committed before \<^verbatim>\<open>FlushInverted\<close> returns; the posting list of word
  1 holds page 1 afterwards, and page 1 was not staged for word 1.
\<close>

theorem FlushInverted_keeps_earlier_pages:
  "(case FlushInverted [RunFunction 0, Commit] secondSession of
      Inl p \<Rightarrow> False
    | Inr r \<Rightarrow> snd r = None \<and> uint64ToByte 1 \<in> posting (db (fst r)) 1
        \<and> \<not> staged secondSession 1 1)"
  by (simp add: secondSession_def run_defs posting_def staged_def)

text \<open>
  The return of \<^verbatim>\<open>FlushInverted\<close> and the commit. A page with the term quick is
  ingested into the empty database and the staging is flushed; the function of the
  word runs, and \<^verbatim>\<open>FlushInverted\<close> returns before the transaction is committed. The
  posting list of the word is empty in the database at that moment and holds the page
  after the commit.
\<close>

lemma FlushInverted_returns_before_commit:
  "(case UpdateOrAddPage (\<lambda>p. []) [] racingDoc (LoadIndexer emptyDb) of
      Inl p \<Rightarrow> False
    | Inr a \<Rightarrow>
        (case FlushInverted [] a of
           Inl p \<Rightarrow> False
         | Inr r \<Rightarrow> staged a 1 1 \<and> posting (db (fst r)) 1 = {}
             \<and> posting (db (committed r)) 1 = {uint64ToByte 1}))"
  by (simp add: racingDoc_def run_defs posting_def staged_def)

lemma two_rounds:
  "\<exists>a. UpdateOrAddPage (\<lambda>p. []) [] racingDoc (LoadIndexer emptyDb) = Inr a
     \<and> (\<exists>r1. FlushInverted [RunFunction 0, Commit] a = Inr r1
     \<and> (\<exists>b. UpdateOrAddPage (\<lambda>p. []) [] racingDoc (committed r1) = Inr b
     \<and> (\<exists>r2. FlushInverted [] b = Inr r2
          \<and> byteToUint64 (fst (getOrCreatePageId (Uri racingDoc) (LoadIndexer emptyDb))) = Inr 1
          \<and> uint64ToByte 1 \<in> posting (db (committed r1)) 1)))"
  by (simp add: racingDoc_def run_defs posting_def)

theorem reingest_posting_lists_witness:
  "\<exists>a r1 b r2. UpdateOrAddPage (\<lambda>p. []) [] racingDoc (LoadIndexer emptyDb) = Inr a
     \<and> FlushInverted [RunFunction 0, Commit] a = Inr r1
     \<and> UpdateOrAddPage (\<lambda>p. []) [] racingDoc (committed r1) = Inr b
     \<and> FlushInverted [] b = Inr r2
     \<and> uint64ToByte 1 \<in> posting (db (committed r1)) 1
     \<and> posting (db (fst r2)) 1 = posting (db (committed r1)) 1
     \<and> posting (db (committed r2)) 1 = posting (db (committed r1)) 1
     \<and> card (posting (db (fst r2)) 1) = card (posting (db (committed r1)) 1)
     \<and> card (posting (db (committed r2)) 1) = card (posting (db (committed r1)) 1)"
proof -
  from two_rounds obtain a r1 b r2 where
    r: "UpdateOrAddPage (\<lambda>p. []) [] racingDoc (LoadIndexer emptyDb) = Inr a"
      "FlushInverted [RunFunction 0, Commit] a = Inr r1"
      "UpdateOrAddPage (\<lambda>p. []) [] racingDoc (committed r1) = Inr b"
      "FlushInverted [] b = Inr r2"
    and p: "byteToUint64 (fst (getOrCreatePageId (Uri racingDoc) (LoadIndexer emptyDb))) = Inr 1"
    and m: "uint64ToByte 1 \<in> posting (db (committed r1)) 1"
    by blast
  have u: "Uri racingDoc \<noteq> []" "length (Uri racingDoc) \<le> MaxKeySize"
    by (simp_all add: racingDoc_def MaxKeySize_def)
  have v: "plain_values (db (LoadIndexer emptyDb) UrlToPageId)"
    by (simp add: plain_values_def LoadIndexer_def emptyDb_def emptyBucket_def)
  have s: "set (wordIdList (LoadIndexer emptyDb)) = dom (tempInverted (LoadIndexer emptyDb))"
    by (simp add: LoadIndexer_def)
  from reingest_posting_lists [OF u v s r p m] r m show ?thesis
    by blast
qed

text \<open>
  C9, as stated, fails for a document with the empty url. The store refuses the empty
  key, so the url is never stored and every ingestion gives the document a new page
  id: 1 in the first round, 2 in the second. The posting list of the term holds page 1
  after the first round, and pages 1 and 2 after the second.
\<close>

theorem reingest_empty_uri:
  "(case UpdateOrAddPage (\<lambda>p. []) [] emptyUriDoc (LoadIndexer emptyDb) of
      Inl p \<Rightarrow> False
    | Inr a \<Rightarrow>
        (case FlushInverted [RunFunction 0, Commit] a of
           Inl p \<Rightarrow> False
         | Inr r1 \<Rightarrow>
             (case UpdateOrAddPage (\<lambda>p. []) [] emptyUriDoc (committed r1) of
                Inl p \<Rightarrow> False
              | Inr b \<Rightarrow>
                  (case FlushInverted [RunFunction 0, Commit] b of
                     Inl p \<Rightarrow> False
                   | Inr r2 \<Rightarrow>
                       fst (getOrCreatePageId (Uri emptyUriDoc) (LoadIndexer emptyDb))
                         = uint64ToByte 1
                       \<and> snd r1 = None \<and> snd r2 = None
                       \<and> posting (db (fst r1)) 1 = {uint64ToByte 1}
                       \<and> posting (db (fst r2)) 1 = {uint64ToByte 1, uint64ToByte 2}
                       \<and> card (posting (db (fst r1)) 1) = 1
                       \<and> card (posting (db (fst r2)) 1) = 2))))"
  by (simp add: emptyUriDoc_def run_defs posting_def insert_commute)

text \<open>
  How \<open>secondSession\<close> arises: a first session ingests a page with the term quick and
  flushes; a second session opens the database and ingests another page with the same
  term.
\<close>

lemma secondSession_arises:
  "\<exists>a. UpdateOrAddPage (\<lambda>p. []) [] racingDoc (LoadIndexer emptyDb) = Inr a
     \<and> (\<exists>r1. FlushInverted [] a = Inr r1
     \<and> (\<exists>b. UpdateOrAddPage (\<lambda>p. []) [] otherDoc (LoadIndexer (db (committed r1))) = Inr b
          \<and> db b InvertedTable = db secondSession InvertedTable
          \<and> tempInverted b = tempInverted secondSession
          \<and> wordIdList b = wordIdList secondSession))"
  by (simp add: racingDoc_def otherDoc_def secondSession_def run_defs)

end
